theory Spec2Isabelle
  imports Main "HOL-Library.Sublist" "HOL-Library.AList" "HOL-Library.Char_ord"
begin

section \<open>JavaScript strings\<close>

text \<open>
  Strings are character lists. The three string primitives that
  \<^verbatim>\<open>web.route.handler.js\<close> relies on are written out with the behaviour ECMAScript
  gives them: \<^verbatim>\<open>indexOf\<close> answers \<open>-1\<close> when the needle does not occur,
  \<^verbatim>\<open>substring\<close> clamps both positions into the string and swaps them when they
  are out of order.
\<close>

fun indexOf :: "string \<Rightarrow> string \<Rightarrow> int" where
  "indexOf [] sub = (if sub = [] then 0 else - 1)"
| "indexOf (c # cs) sub =
     (if prefix sub (c # cs) then 0
      else (let r = indexOf cs sub in if r < 0 then - 1 else r + 1))"

definition substring :: "string \<Rightarrow> int \<Rightarrow> int \<Rightarrow> string" where
  "substring s a b =
     (let n = int (length s);
          a' = max 0 (min a n);
          b' = max 0 (min b n);
          lo = min a' b';
          hi = max a' b'
      in take (nat (hi - lo)) (drop (nat lo) s))"

definition substringFrom :: "string \<Rightarrow> int \<Rightarrow> string" where
  "substringFrom s a = substring s a (int (length s))"

text \<open>
  \<^verbatim>\<open>toLowerCase\<close> on the ASCII letters; every other character is left as it is
  (request paths are ASCII, anything else arrives percent-encoded).
\<close>

definition toLowerChar :: "char \<Rightarrow> char" where
  "toLowerChar c =
     (case map_of (zip ''ABCDEFGHIJKLMNOPQRSTUVWXYZ'' ''abcdefghijklmnopqrstuvwxyz'') c of
        None \<Rightarrow> c
      | Some l \<Rightarrow> l)"

definition toLowerCase :: "string \<Rightarrow> string" where
  "toLowerCase s = map toLowerChar s"

definition bslash :: char where
  "bslash = CHR 0x5C"

section \<open>Token extraction: getTokenValuesFromUrl\<close>

text \<open>
  The token object \<^verbatim>\<open>tokenValues = {}\<close> is an association list from property name
  to value. An assignment \<^verbatim>\<open>tokenValues[k] = v\<close> replaces the value of an existing
  key and appends a new key otherwise; on a plain object the key
  \<^verbatim>\<open>__proto__\<close> is the prototype accessor, whose setter ignores a string, so
  that assignment leaves the object without the property.
\<close>

type_synonym tokenMap = "(string \<times> string) list"

definition setProp :: "tokenMap \<Rightarrow> string \<Rightarrow> string \<Rightarrow> tokenMap" where
  "setProp obj k v = (if k = ''__proto__'' then obj else AList.update k v obj)"

text \<open>
  One pass through the body of \<^verbatim>\<open>while (true) { ... }\<close> (lines 49 to 85).
  \<open>Inl\<close> is a \<^verbatim>\<open>break\<close> with the object built so far, \<open>Inr\<close> carries the
  three variables the loop updates into the next pass.
\<close>

definition loopBody ::
  "string \<Rightarrow> string \<Rightarrow> tokenMap \<Rightarrow> tokenMap + (string \<times> string \<times> tokenMap)" where
  "loopBody pattern url tokenValues =
     (let idx = indexOf pattern ''{'' in
      if idx < 0 then Inl tokenValues
      else
        let url1 = substringFrom url idx;
            pattern1 = substringFrom pattern (idx + 1);
            idx1 = indexOf pattern1 ''}''
        in
        if idx1 < 0 then Inl tokenValues
        else
          let tokenName = substring pattern1 0 idx1;
              pattern2 = (if idx1 = int (length pattern1) - 1 then ''''
                          else substringFrom pattern1 (idx1 + 1));
              idx2 = indexOf url1 ''/'';
              idx3 = (if idx2 < 0 then int (length url1) else idx2);
              idx4 = (if pattern2 \<noteq> '''' \<and> 0 \<le> indexOf url1 pattern2
                      then min idx3 (indexOf url1 pattern2) else idx3);
              tokenValue = substring url1 0 idx4;
              url2 = substringFrom url1 idx4
          in Inr (pattern2, url2, setProp tokenValues tokenName tokenValue))"

text \<open>
  The loop has no bound in the source, so it is a partial function into \<open>option\<close>:
  a run that never leaves the loop is \<open>None\<close>.
\<close>

partial_function (option) tokenLoop :: "string \<Rightarrow> string \<Rightarrow> tokenMap \<Rightarrow> tokenMap option" where
  "tokenLoop pattern url tokenValues =
     (case loopBody pattern url tokenValues of
        Inl finished \<Rightarrow> Some finished
      | Inr (pattern', url', tokenValues') \<Rightarrow> tokenLoop pattern' url' tokenValues')"

declare tokenLoop.simps [code]

definition getTokenValuesFromUrl :: "string \<Rightarrow> string \<Rightarrow> tokenMap option" where
  "getTokenValuesFromUrl pattern url = tokenLoop pattern url []"


section \<open>Route patterns as regular expressions: convertUrlPatternToRegex\<close>

text \<open>
  \<^verbatim>\<open>convertUrlPatternToRegex\<close> (lines 30 to 35) rewrites the pattern text three
  times and hands the result to \<^verbatim>\<open>new RegExp\<close>.

  The first rewrite replaces, from left to right, every match of
  \<^verbatim>\<open>{[a-zA-Z0-9\-_~]*}\<close> by the text \<^verbatim>\<open>[a-zA-Z0-9\-_~]+\<close>. A match is an opening
  brace, the longest run of class characters after it, and a closing brace right
  after the run (no shorter run can be followed by a closing brace, the brace not
  being in the class); the flag \<open>i\<close> adds nothing to a class that has both cases.
  Where no match starts, the character is copied.
\<close>

definition isTokenChar :: "char \<Rightarrow> bool" where
  "isTokenChar c \<longleftrightarrow>
     (CHR ''a'' \<le> c \<and> c \<le> CHR ''z'') \<or> (CHR ''A'' \<le> c \<and> c \<le> CHR ''Z'') \<or>
     (CHR ''0'' \<le> c \<and> c \<le> CHR ''9'') \<or> c = CHR ''-'' \<or> c = CHR ''_'' \<or> c = CHR ''~''"

definition tokenClass :: string where
  "tokenClass = ''[a-zA-Z0-9'' @ [bslash] @ ''-_~]+''"

function replaceTokens :: "string \<Rightarrow> string" where
  "replaceTokens [] = []"
| "replaceTokens (c # cs) =
     (if c = CHR ''{'' then
        (case dropWhile isTokenChar cs of
           [] \<Rightarrow> c # replaceTokens cs
         | d # rest \<Rightarrow>
             if d = CHR ''}'' then tokenClass @ replaceTokens rest
             else c # replaceTokens cs)
      else c # replaceTokens cs)"
  by pat_completeness auto
termination
proof (relation "measure length")
  fix c :: char and cs d rest
  assume "dropWhile isTokenChar cs = d # rest"
  then have "length (d # rest) \<le> length cs"
    by (metis length_dropWhile_le)
  then show "(rest, c # cs) \<in> measure length" by simp
qed auto

text \<open>The second rewrite, \<^verbatim>\<open>pattern.replace(/\//g, '\\/')\<close>, puts a backslash before every slash.\<close>

definition escapeSlashes :: "string \<Rightarrow> string" where
  "escapeSlashes s = concat (map (\<lambda>c. if c = CHR ''/'' then [bslash, CHR ''/''] else [c]) s)"

text \<open>
  A \<^verbatim>\<open>RegExp\<close> object is its source text and what \<^verbatim>\<open>test\<close> answers on a
  string. \<^verbatim>\<open>new RegExp(src)\<close> belongs to the language, not to the repository: the
  functions below take it as a parameter, an \<open>engine\<close> that gives the matcher of a
  source or \<open>None\<close> where the constructor throws \<^verbatim>\<open>SyntaxError\<close>. Errors are
  values: \<open>Error msg\<close> for \<^verbatim>\<open>new Error(msg)\<close>, and the two built-in errors the
  handler can run into.
\<close>

record regexp =
  source :: string
  test :: "string \<Rightarrow> bool"

datatype error = Error string | TypeError | SyntaxError

type_synonym engine = "string \<Rightarrow> (string \<Rightarrow> bool) option"

definition newRegExp :: "engine \<Rightarrow> string \<Rightarrow> error + regexp" where
  "newRegExp E src =
     (case E src of
        None \<Rightarrow> Inl SyntaxError
      | Some matcher \<Rightarrow> Inr \<lparr>source = src, test = matcher\<rparr>)"

definition convertUrlPatternToRegex :: "engine \<Rightarrow> string \<Rightarrow> error + regexp" where
  "convertUrlPatternToRegex E pattern =
     (let pattern1 = replaceTokens pattern;
          pattern2 = escapeSlashes pattern1;
          pattern3 = ''^'' @ pattern2 @ ''$''
      in newRegExp E pattern3)"

subsection \<open>A fragment of the regular expression language\<close>

text \<open>
  One engine, for the part of the \<^verbatim>\<open>RegExp\<close> language that compiled route patterns
  use: the anchors \<^verbatim>\<open>^\<close> and \<^verbatim>\<open>$\<close> around the whole source, literal characters,
  a backslash before a syntax character, a slash or a hyphen (the character itself),
  and a character class of single characters and ranges, with or without \<^verbatim>\<open>+\<close>
  after it. A source with anything else has no program here (\<open>None\<close>), which says
  nothing about JavaScript; the statements that hold for every engine do not depend
  on it. Without flags and between the two anchors, \<^verbatim>\<open>test\<close> is a match of the
  whole string.
\<close>

datatype atom = Lit char | Class "(char \<times> char) list"

datatype item = Once atom | Plus atom

definition syntaxChars :: "char list" where
  "syntaxChars = ''^$.*+?()[]{}|'' @ [bslash]"

definition identityEscapes :: "char list" where
  "identityEscapes = syntaxChars @ ''/-''"

fun classAtom :: "string \<Rightarrow> (char \<times> string) option" where
  "classAtom [] = None"
| "classAtom (c # cs) =
     (if c = CHR '']'' then None
      else if c = bslash then
        (case cs of
           [] \<Rightarrow> None
         | e # r \<Rightarrow> if e \<in> set identityEscapes then Some (e, r) else None)
      else Some (c, cs))"

declare classAtom.simps [simp del]

function parseClass :: "string \<Rightarrow> ((char \<times> char) list \<times> string) option" where
  "parseClass s =
     (case s of
        [] \<Rightarrow> None
      | c # cs \<Rightarrow>
          if c = CHR '']'' then Some ([], cs)
          else
            (case classAtom s of
               None \<Rightarrow> None
             | Some (lo, r1) \<Rightarrow>
                 (case r1 of
                    [] \<Rightarrow> None
                  | d # r2 \<Rightarrow>
                      if d = CHR ''-'' \<and> r2 \<noteq> [] \<and> hd r2 \<noteq> CHR '']'' then
                        (case classAtom r2 of
                           None \<Rightarrow> None
                         | Some (hi, r3) \<Rightarrow>
                             if lo \<le> hi then
                               (case parseClass r3 of
                                  None \<Rightarrow> None
                                | Some (rs, r) \<Rightarrow> Some ((lo, hi) # rs, r))
                             else None)
                      else
                        (case parseClass r1 of
                           None \<Rightarrow> None
                         | Some (rs, r) \<Rightarrow> Some ((lo, lo) # rs, r)))))"
  by pat_completeness auto
termination
proof -
  have atom: "length r < length s" if "classAtom s = Some (c, r)" for s c r
    using that by (cases s) (auto simp: classAtom.simps split: if_splits list.splits)
  show ?thesis
    by (relation "measure length") (auto dest!: atom)
qed

declare parseClass.simps [simp del]

function parseBody :: "string \<Rightarrow> item list option" where
  "parseBody s =
     (case s of
        [] \<Rightarrow> None
      | c # cs \<Rightarrow>
          if c = CHR ''$'' then (if cs = [] then Some [] else None)
          else if c = CHR ''['' then
            (if cs \<noteq> [] \<and> hd cs = CHR ''^'' then None
             else
               (case parseClass cs of
                  None \<Rightarrow> None
                | Some (rs, r) \<Rightarrow>
                    if r \<noteq> [] \<and> hd r = CHR ''+''
                    then map_option (\<lambda>is. Plus (Class rs) # is) (parseBody (tl r))
                    else map_option (\<lambda>is. Once (Class rs) # is) (parseBody r)))
          else if c = bslash then
            (case cs of
               [] \<Rightarrow> None
             | e # r \<Rightarrow>
                 if e \<in> set identityEscapes
                 then map_option (\<lambda>is. Once (Lit e) # is) (parseBody r)
                 else None)
          else if c \<in> set syntaxChars then None
          else map_option (\<lambda>is. Once (Lit c) # is) (parseBody cs))"
  by pat_completeness auto
termination
proof -
  have atom: "length r < length s" if "classAtom s = Some (c, r)" for s c r
    using that by (cases s) (auto simp: classAtom.simps split: if_splits list.splits)
  have cls: "parseClass s = Some (rs, r) \<Longrightarrow> length r < length s" for s rs r
  proof (induction s arbitrary: rs r rule: parseClass.induct)
    case (1 s)
    show ?case
    proof (cases s)
      case Nil
      with "1.prems" show ?thesis by (simp add: parseClass.simps)
    next
      case (Cons c cs)
      show ?thesis
      proof (cases "c = CHR '']''")
        case True
        with Cons "1.prems" show ?thesis by (simp add: parseClass.simps)
      next
        case False
        with Cons "1.prems" obtain lo r1 where ca: "classAtom s = Some (lo, r1)"
          by (subst (asm) parseClass.simps) (auto split: option.splits)
        then have l1: "length r1 < length s" by (rule atom)
        with Cons False ca "1.prems" obtain d r2 where r1: "r1 = d # r2"
          by (subst (asm) parseClass.simps) (auto split: list.splits)
        show ?thesis
        proof (cases "d = CHR ''-'' \<and> r2 \<noteq> [] \<and> hd r2 \<noteq> CHR '']''")
          case True
          with Cons False ca r1 "1.prems" obtain hi r3 rs' where
            cb: "classAtom r2 = Some (hi, r3)" and lh: "lo \<le> hi"
            and pc: "parseClass r3 = Some (rs', r)"
            by (subst (asm) parseClass.simps) (auto split: option.splits if_splits)
          from "1.IH"(1) [OF Cons False ca refl r1 True cb refl lh pc]
          have "length r < length r3" .
          moreover from cb have "length r3 < length r2" by (rule atom)
          ultimately show ?thesis using l1 r1 by simp
        next
          case no: False
          with Cons False ca r1 "1.prems" obtain rs' where pc: "parseClass r1 = Some (rs', r)"
            by (subst (asm) parseClass.simps) (auto split: option.splits if_splits)
          from "1.IH"(2) [OF Cons False ca refl r1 no pc] l1 show ?thesis by simp
        qed
      qed
    qed
  qed
  show ?thesis
    by (relation "measure length") (auto dest!: cls)
qed

declare parseBody.simps [simp del]

definition compile :: "string \<Rightarrow> item list option" where
  "compile src =
     (case src of
        [] \<Rightarrow> None
      | c # cs \<Rightarrow> if c = CHR ''^'' then parseBody cs else None)"

fun accepts :: "atom \<Rightarrow> char \<Rightarrow> bool" where
  "accepts (Lit c) x = (x = c)"
| "accepts (Class rs) x = list_ex (\<lambda>(lo, hi). lo \<le> x \<and> x \<le> hi) rs"

fun fullMatch :: "item list \<Rightarrow> string \<Rightarrow> bool" where
  "fullMatch [] s = (s = [])"
| "fullMatch (Once a # is) s =
     (case s of [] \<Rightarrow> False | c # cs \<Rightarrow> accepts a c \<and> fullMatch is cs)"
| "fullMatch (Plus a # is) s =
     (case s of
        [] \<Rightarrow> False
      | c # cs \<Rightarrow> accepts a c \<and> (fullMatch is cs \<or> fullMatch (Plus a # is) cs))"

definition fragmentEngine :: engine where
  "fragmentEngine src = map_option fullMatch (compile src)"


section \<open>JavaScript values\<close>

text \<open>
  The values that configuration fields, queries, page models and renders can be.
  Numbers are the integers; an object is the list of its own properties; a function
  is known by its source text. \<open>truthy\<close> is JavaScript's \<^verbatim>\<open>ToBoolean\<close>, \<open>jsOr\<close> is
  \<^verbatim>\<open>a || b\<close>, \<open>jsToString\<close> is what string concatenation makes of a value, and
  \<open>getProp\<close> reads an own property: \<^verbatim>\<open>undefined\<close> when it is absent, a
  \<^verbatim>\<open>TypeError\<close> when the value read from is \<^verbatim>\<open>undefined\<close> or \<^verbatim>\<open>null\<close>.
\<close>

datatype jsval =
    JUndefined
  | JNull
  | JBool bool
  | JNum int
  | JStr string
  | JObj "(string \<times> jsval) list"
  | JFun string

fun truthy :: "jsval \<Rightarrow> bool" where
  "truthy JUndefined = False"
| "truthy JNull = False"
| "truthy (JBool b) = b"
| "truthy (JNum n) = (n \<noteq> 0)"
| "truthy (JStr s) = (s \<noteq> [])"
| "truthy (JObj props) = True"
| "truthy (JFun src) = True"

definition jsOr :: "jsval \<Rightarrow> jsval \<Rightarrow> jsval" where
  "jsOr a b = (if truthy a then a else b)"

fun isFunction :: "jsval \<Rightarrow> bool" where
  "isFunction (JFun src) = True"
| "isFunction v = False"

fun digitsOf :: "nat \<Rightarrow> string" where
  "digitsOf n =
     (if n < 10 then [''0123456789'' ! n]
      else digitsOf (n div 10) @ [''0123456789'' ! (n mod 10)])"

declare digitsOf.simps [simp del]

fun jsToString :: "jsval \<Rightarrow> string" where
  "jsToString JUndefined = ''undefined''"
| "jsToString JNull = ''null''"
| "jsToString (JBool b) = (if b then ''true'' else ''false'')"
| "jsToString (JNum n) = (if n < 0 then ''-'' @ digitsOf (nat (- n)) else digitsOf (nat n))"
| "jsToString (JStr s) = s"
| "jsToString (JObj props) = ''[object Object]''"
| "jsToString (JFun src) = src"

fun getProp :: "jsval \<Rightarrow> string \<Rightarrow> error + jsval" where
  "getProp JUndefined k = Inl TypeError"
| "getProp JNull k = Inl TypeError"
| "getProp (JObj props) k = Inr (case map_of props k of None \<Rightarrow> JUndefined | Some v \<Rightarrow> v)"
| "getProp v k = Inr JUndefined"

section \<open>Application configuration and compiled routes\<close>

text \<open>
  A route as the application file declares it, and the application's configuration.
  A property that a route may leave out is an \<open>option\<close>: \<open>None\<close> is a property the
  object does not have. The application-level defaults are read only, so an absent
  one is \<open>JUndefined\<close>.
\<close>

record routeDecl =
  r_name :: string
  r_urls :: "string list"
  r_layout :: "jsval option"
  r_wrapper :: "jsval option"
  r_strip :: "jsval option"
  r_contentType :: "jsval option"
  r_data :: "jsval option"
  r_serverOnly :: "jsval option"

record appConfig =
  routes :: "routeDecl list"
  defaultLayout :: jsval
  defaultWrapper :: jsval
  defaultStrip :: jsval
  a_data :: jsval
  a_serverOnly :: jsval

text \<open>
  The objects \<^verbatim>\<open>getRoutes\<close> pushes (one per URL pattern of a route) and the object
  \<^verbatim>\<open>getRouteInfo\<close> builds from one of them, which has five more properties. The
  module keeps two caches, \<^verbatim>\<open>routeInfoCache\<close> and \<^verbatim>\<open>appRouteCache\<close>; they are
  the state that every call takes and returns. Both are plain objects used as maps,
  as is \<^verbatim>\<open>appConfigs\<close>; they are maps here, so an application is not named
  like a member that every object inherits (\<^verbatim>\<open>constructor\<close>, \<^verbatim>\<open>toString\<close>
  and the like), which a read of the empty cache would answer with.
\<close>

record route =
  urlPattern :: string
  urlRegex :: regexp
  layout :: jsval
  wrapper :: jsval
  strip :: jsval
  contentType :: jsval
  data :: jsval
  serverOnly :: jsval
  name :: string
  urls :: "string list"

record routeInfo = route +
  appName :: string
  lang :: string
  url :: string
  query :: jsval
  tokens :: tokenMap

record state =
  routeInfoCache :: "string \<rightharpoonup> routeInfo"
  appRouteCache :: "string \<rightharpoonup> route list"

text \<open>
  \<^verbatim>\<open>_.extend({ ... }, route)\<close> (lines 106 to 115) first computes each property from
  the route and the application defaults and then copies the route's own properties
  over the result: \<open>extendProp computed p\<close> is the route's own value when it has the
  property and the computed one otherwise. \<open>own p\<close> reads the property of the route.
\<close>

definition own :: "jsval option \<Rightarrow> jsval" where
  "own p = (case p of None \<Rightarrow> JUndefined | Some v \<Rightarrow> v)"

definition extendProp :: "jsval \<Rightarrow> jsval option \<Rightarrow> jsval" where
  "extendProp computed p = (case p of None \<Rightarrow> computed | Some v \<Rightarrow> v)"

definition makeRoute :: "string \<Rightarrow> appConfig \<Rightarrow> routeDecl \<Rightarrow> string \<Rightarrow> regexp \<Rightarrow> route" where
  "makeRoute app appCfg decl pat rx =
     \<lparr> urlPattern = pat,
       urlRegex = rx,
       layout = extendProp (jsOr (jsOr (own (r_layout decl)) (defaultLayout appCfg)) (JStr app))
                  (r_layout decl),
       wrapper = extendProp (jsOr (jsOr (own (r_wrapper decl)) (defaultWrapper appCfg))
                           (JStr ''server.page''))
                   (r_wrapper decl),
       strip = extendProp (jsOr (jsOr (own (r_strip decl)) (defaultStrip appCfg)) (JBool True))
                 (r_strip decl),
       contentType = extendProp (own (r_contentType decl)) (r_contentType decl),
       data = extendProp (jsOr (own (r_data decl)) (a_data appCfg)) (r_data decl),
       serverOnly = extendProp (a_serverOnly appCfg) (r_serverOnly decl),
       name = r_name decl,
       urls = r_urls decl \<rparr>"

text \<open>
  The two nested \<^verbatim>\<open>_.each\<close> loops of \<^verbatim>\<open>getRoutes\<close>. A pattern that the engine
  rejects ends the call with the error, and nothing is cached.
\<close>

fun routesOfUrls ::
  "engine \<Rightarrow> string \<Rightarrow> appConfig \<Rightarrow> routeDecl \<Rightarrow> string list \<Rightarrow> error + route list" where
  "routesOfUrls E app appCfg decl [] = Inr []"
| "routesOfUrls E app appCfg decl (pat # pats) =
     (case convertUrlPatternToRegex E pat of
        Inl e \<Rightarrow> Inl e
      | Inr rx \<Rightarrow>
          (case routesOfUrls E app appCfg decl pats of
             Inl e \<Rightarrow> Inl e
           | Inr rs \<Rightarrow> Inr (makeRoute app appCfg decl pat rx # rs)))"

fun routesOfDecls ::
  "engine \<Rightarrow> string \<Rightarrow> appConfig \<Rightarrow> routeDecl list \<Rightarrow> error + route list" where
  "routesOfDecls E app appCfg [] = Inr []"
| "routesOfDecls E app appCfg (decl # decls) =
     (case routesOfUrls E app appCfg decl (r_urls decl) of
        Inl e \<Rightarrow> Inl e
      | Inr rs \<Rightarrow>
          (case routesOfDecls E app appCfg decls of
             Inl e \<Rightarrow> Inl e
           | Inr rs' \<Rightarrow> Inr (rs @ rs')))"

text \<open>
  \<^verbatim>\<open>getRoutes\<close> (lines 98 to 121). An application without a configuration makes
  \<^verbatim>\<open>appConfig.routes\<close> a read from \<^verbatim>\<open>undefined\<close>, a \<^verbatim>\<open>TypeError\<close>.
\<close>

definition getRoutes ::
  "engine \<Rightarrow> (string \<rightharpoonup> appConfig) \<Rightarrow> string \<Rightarrow> state \<Rightarrow> (error + route list) \<times> state" where
  "getRoutes E appConfigs app st =
     (case appRouteCache st app of
        Some cached \<Rightarrow> (Inr cached, st)
      | None \<Rightarrow>
          (case appConfigs app of
             None \<Rightarrow> (Inl TypeError, st)
           | Some appCfg \<Rightarrow>
               (case routesOfDecls E app appCfg (routes appCfg) of
                  Inl e \<Rightarrow> (Inl e, st)
                | Inr rs \<Rightarrow> (Inr rs, st\<lparr>appRouteCache := (appRouteCache st)(app \<mapsto> rs)\<rparr>))))"

text \<open>
  \<^verbatim>\<open>getRouteInfo\<close> (lines 131 to 169). The caller gets the cached object itself, not
  a copy, and a later hit writes \<open>query\<close> into that same object. An object is created
  only on a miss, stored under its key at once and never replaced, so the key names
  the object: the model returns the key as the reference, and what the caller holds
  is the entry of \<open>routeInfoCache\<close> under it in the current state. The \<^verbatim>\<open>for\<close>
  loop that returns at the first route whose expression accepts the lowercased URL is
  \<open>find\<close>. The token loop is a partial function, so the call is one too.
\<close>

definition makeRouteInfo ::
  "string \<Rightarrow> string \<Rightarrow> string \<Rightarrow> jsval \<Rightarrow> tokenMap \<Rightarrow> route \<Rightarrow> routeInfo" where
  "makeRouteInfo app lng urlRequest qry tks r =
     \<lparr> urlPattern = urlPattern r, urlRegex = urlRegex r, layout = layout r,
       wrapper = wrapper r, strip = strip r, contentType = contentType r, data = data r,
       serverOnly = serverOnly r, name = name r, urls = urls r,
       appName = app, lang = lng, url = urlRequest, query = qry, tokens = tks \<rparr>"

definition notFound :: "string \<Rightarrow> string \<Rightarrow> error" where
  "notFound app urlRequest = Error (''404: '' @ app @ '' '' @ urlRequest @ '' is not a valid request'')"

definition getRouteInfo ::
  "engine \<Rightarrow> (string \<rightharpoonup> appConfig) \<Rightarrow> string \<Rightarrow> string \<Rightarrow> jsval \<Rightarrow> string \<Rightarrow> state \<Rightarrow>
     ((error + string) \<times> state) option" where
  "getRouteInfo E appConfigs app urlRequest qry lng st =
     (let cacheKey = app @ ''||'' @ urlRequest in
      case routeInfoCache st cacheKey of
        Some cachedRouteInfo \<Rightarrow>
          Some (Inr cacheKey,
                st\<lparr>routeInfoCache := (routeInfoCache st)(cacheKey \<mapsto> cachedRouteInfo\<lparr>query := qry\<rparr>)\<rparr>)
      | None \<Rightarrow>
          (let lowered = toLowerCase urlRequest in
           case getRoutes E appConfigs app st of
             (Inl e, st1) \<Rightarrow> Some (Inl e, st1)
           | (Inr rs, st1) \<Rightarrow>
               (case find (\<lambda>r. test (urlRegex r) lowered) rs of
                  None \<Rightarrow> Some (Inl (notFound app urlRequest), st1)
                | Some r \<Rightarrow>
                    (case getTokenValuesFromUrl (urlPattern r) urlRequest of
                       None \<Rightarrow> None
                     | Some tks \<Rightarrow>
                         Some (Inr cacheKey,
                               st1\<lparr>routeInfoCache := (routeInfoCache st1)
                                     (cacheKey \<mapsto> makeRouteInfo app lng urlRequest qry tks r)\<rparr>)))))"

section \<open>The request pipeline\<close>

text \<open>
  A page module with the two properties the handler reads, the dependencies that
  \<^verbatim>\<open>getInitialModel\<close> hands to the injector, a promise by its outcome, and the
  collaborators the module is initialised with: \<open>loadPage\<close> is
  \<^verbatim>\<open>injector.loadModule\<close> on a path, \<open>loadModule\<close> is \<^verbatim>\<open>injector.loadModule\<close> on a
  model function with its dependencies (it may throw, or return a value or a promise,
  which \<^verbatim>\<open>Q.when\<close> makes a promise either way), \<open>renderPage\<close> is the client
  plugin's, \<open>stringify\<close> is \<^verbatim>\<open>JSON.stringify\<close>.
\<close>

record page =
  model :: jsval
  defaults :: jsval

record initModelDeps =
  d_appName :: string
  d_tokens :: tokenMap
  d_routeInfo :: routeInfo
  d_defaults :: jsval
  d_currentScope :: jsval

datatype 'a promise = Fulfilled 'a | Rejected error

record opts =
  loadPage :: "string \<Rightarrow> error + page"
  loadModule :: "jsval \<Rightarrow> initModelDeps \<Rightarrow> error + jsval promise"
  renderPage :: "routeInfo \<Rightarrow> page \<Rightarrow> jsval \<Rightarrow> jsval"
  stringify :: "jsval \<Rightarrow> string"

text \<open>\<^verbatim>\<open>getInitialModel\<close> (lines 191 to 211). \<open>Inl\<close> is the \<^verbatim>\<open>throw\<close>, \<open>Inr\<close> the promise returned.\<close>

definition getInitialModel :: "opts \<Rightarrow> routeInfo \<Rightarrow> page \<Rightarrow> error + jsval promise" where
  "getInitialModel env ri pg =
     (let deps = \<lparr> d_appName = appName ri, d_tokens = tokens ri, d_routeInfo = ri,
                   d_defaults = defaults pg, d_currentScope = JObj [] \<rparr>
      in if \<not> truthy (model pg) then Inr (Fulfilled (JObj []))
         else if isFunction (model pg) then loadModule env (model pg) deps
         else Inl (Error (name ri @ '' page invalid model() format: '' @ jsToString (model pg))))"

text \<open>
  The page cache in use is \<^verbatim>\<open>callbacks.pageCacheService || defaultPageCache\<close>
  (line 229), and the handler calls it with one object argument each time:
  \<^verbatim>\<open>get({ key: cacheKey })\<close> and \<^verbatim>\<open>set({ key: cacheKey, value: renderedPage })\<close>.
  A service that the application supplies is written for these calls: a map from keys
  to renders, a lookup of an absent key answering \<^verbatim>\<open>undefined\<close>.
\<close>

type_synonym pageCache = "string \<rightharpoonup> jsval"

definition cacheGet :: "pageCache \<Rightarrow> string \<Rightarrow> jsval" where
  "cacheGet c k = (case c k of None \<Rightarrow> JUndefined | Some v \<Rightarrow> v)"

text \<open>
  The default is \<^verbatim>\<open>lruCache({ max: 100, maxAge: 60000 })\<close> (line 11), private to the
  module and empty when it is created. The methods of that package are
  \<^verbatim>\<open>get(key)\<close> and \<^verbatim>\<open>set(key, value)\<close>: its first argument is the key and its
  second the value. Called as the handler calls it, the key is the object passed and
  the value stored is \<^verbatim>\<open>undefined\<close>, no second argument being passed. The entries
  are a list of key and value. How the package compares two objects as keys, and which
  entries \<^verbatim>\<open>max\<close> and \<^verbatim>\<open>maxAge\<close> drop, does not show in what a lookup answers:
  a key that is not found and an entry that was dropped read as \<^verbatim>\<open>undefined\<close>, as
  does every value stored here.
\<close>

type_synonym lruCache = "(jsval \<times> jsval) list"

definition lruGet :: "lruCache \<Rightarrow> jsval \<Rightarrow> jsval" where
  "lruGet c k = (case map_of c k of None \<Rightarrow> JUndefined | Some v \<Rightarrow> v)"

definition lruSet :: "lruCache \<Rightarrow> jsval \<Rightarrow> jsval \<Rightarrow> lruCache" where
  "lruSet c k v = AList.update k v c"

datatype cacheService = Supplied pageCache | Default lruCache

fun serviceGet :: "cacheService \<Rightarrow> string \<Rightarrow> jsval" where
  "serviceGet (Supplied c) k = cacheGet c k"
| "serviceGet (Default c) k = lruGet c (JObj [(''key'', JStr k)])"

fun serviceSet :: "cacheService \<Rightarrow> string \<Rightarrow> jsval \<Rightarrow> cacheService" where
  "serviceSet (Supplied c) k v = Supplied (c(k \<mapsto> v))"
| "serviceSet (Default c) k v =
     Default (lruSet c (JObj [(''key'', JStr k), (''value'', v)]) JUndefined)"

text \<open>
  The callbacks are optional, and lines 227 to 229 put a default in the place of each
  absent one. \<^verbatim>\<open>appAddToModel\<close> changes the model it is given in place; here it
  returns the changed model.
\<close>

record callbacks =
  serverPreprocessing :: "(routeInfo \<Rightarrow> page \<Rightarrow> jsval \<Rightarrow> jsval) option"
  addToModel :: "(jsval \<Rightarrow> routeInfo \<Rightarrow> jsval) option"
  pageCacheService :: "pageCache option"

definition serverPreprocessingOf :: "callbacks \<Rightarrow> routeInfo \<Rightarrow> page \<Rightarrow> jsval \<Rightarrow> jsval" where
  "serverPreprocessingOf cbs =
     (case serverPreprocessing cbs of None \<Rightarrow> (\<lambda>_ _ _. JBool False) | Some f \<Rightarrow> f)"

definition addToModelOf :: "callbacks \<Rightarrow> jsval \<Rightarrow> routeInfo \<Rightarrow> jsval" where
  "addToModelOf cbs = (case addToModel cbs of None \<Rightarrow> (\<lambda>m _. m) | Some f \<Rightarrow> f)"

definition pageCacheOf :: "callbacks \<Rightarrow> lruCache \<Rightarrow> cacheService" where
  "pageCacheOf cbs defaultPageCache =
     (case pageCacheService cbs of None \<Rightarrow> Default defaultPageCache | Some c \<Rightarrow> Supplied c)"

text \<open>The module path of line 224 and the cache key of line 242.\<close>

definition pagePath :: "routeInfo \<Rightarrow> string" where
  "pagePath ri = ''app/'' @ appName ri @ ''/pages/'' @ name ri @ ''.page''"

definition pageCacheKey :: "opts \<Rightarrow> routeInfo \<Rightarrow> jsval \<Rightarrow> string" where
  "pageCacheKey env ri mdl = url ri @ ''||'' @ stringify env mdl"

text \<open>
  \<^verbatim>\<open>processWebRequest\<close> (lines 221 to 261). The two \<^verbatim>\<open>then\<close> callbacks run one
  after the other on the resolved model; the first hands to the second either
  \<^verbatim>\<open>true\<close>, when the pre-processing hook has answered the request, or the result of
  the cache lookup. The result is the thrown error, or the promise returned, together
  with the page cache in use as the request leaves it; the other cache is not touched.
\<close>

definition processWebRequest ::
  "opts \<Rightarrow> routeInfo \<Rightarrow> callbacks \<Rightarrow> lruCache \<Rightarrow> (error + jsval promise) \<times> cacheService" where
  "processWebRequest env ri cbs defaultPageCache =
     (let cache = pageCacheOf cbs defaultPageCache in
      case getProp (query ri) ''server'' of
        Inl e \<Rightarrow> (Inl e, cache)
      | Inr flag \<Rightarrow>
          (let serverOnly' = truthy flag in
           case loadPage env (pagePath ri) of
             Inl e \<Rightarrow> (Inl e, cache)
           | Inr pg \<Rightarrow>
               (case getInitialModel env ri pg of
                  Inl e \<Rightarrow> (Inl e, cache)
                | Inr (Rejected e) \<Rightarrow> (Inr (Rejected e), cache)
                | Inr (Fulfilled mdl) \<Rightarrow>
                    (let initialModel = jsOr mdl (JObj []);
                         cacheKey = pageCacheKey env ri mdl;
                         cachedPage = (if truthy (serverPreprocessingOf cbs ri pg mdl) then JBool True
                                       else serviceGet cache cacheKey)
                     in if cachedPage = JBool True then (Inr (Fulfilled JNull), cache)
                        else if truthy cachedPage \<and> \<not> serverOnly' then
                          (Inr (Fulfilled cachedPage), cache)
                        else
                          (let augmented = addToModelOf cbs initialModel ri;
                               renderedPage = renderPage env ri pg augmented
                           in (Inr (Fulfilled renderedPage),
                               if \<not> serverOnly' then serviceSet cache cacheKey renderedPage
                               else cache))))))"

section \<open>Adapter resolution\<close>

text \<open>
  The service factory is not among the source files; its unit test is. An adapter is
  a map from method names to implementations, a module loader a partial map from
  paths to modules.
\<close>

record serviceInfo =
  adapterName :: string
  adapterImpl :: string
  resourceName :: string

type_synonym 'm adapter = "string \<rightharpoonup> 'm"

datatype adapterError = AdapterNotFound string

text \<open>
  Modelled from the spec: the merge of a primary adapter with a generic override that
  the missing \<^verbatim>\<open>service.factory\<close> performs in \<^verbatim>\<open>getAdapter\<close>. Section 4.3: override
  values replace primary values on key collision; non-colliding primary keys survive.
\<close>

definition mergeAdapter :: "'m adapter \<Rightarrow> 'm adapter \<Rightarrow> 'm adapter" where
  "mergeAdapter primary override = primary ++ override"

text \<open>
  Modelled from the spec: the path of the primary adapter module of the missing
  \<^verbatim>\<open>getAdapter\<close>, \<^verbatim>\<open>adapters/<adapterName>/<adapterImpl>/<resourceName>\<close>.
\<close>

definition primaryPath :: "serviceInfo \<Rightarrow> string" where
  "primaryPath si = ''adapters/'' @ adapterName si @ ''/'' @ adapterImpl si @ ''/'' @ resourceName si"

text \<open>
  Modelled from the spec: \<^verbatim>\<open>getAdapter(serviceInfo, moduleLoader)\<close> of the missing
  \<^verbatim>\<open>service.factory\<close>. It loads the primary module and fails with
  \<open>AdapterNotFound\<close> if it is absent; for a category that supports the generic
  override layer it tries the module at the generic path and, if present, merges it
  over the primary; other categories return the primary unmerged. Which categories
  support the layer, and the generic path, are left open by the spec and are
  parameters here.
\<close>

definition getAdapter ::
  "(string \<Rightarrow> bool) \<Rightarrow> (serviceInfo \<Rightarrow> string) \<Rightarrow> (string \<rightharpoonup> 'm adapter) \<Rightarrow> serviceInfo \<Rightarrow>
     adapterError + 'm adapter" where
  "getAdapter supportsOverride genericPath moduleLoader si =
     (case moduleLoader (primaryPath si) of
        None \<Rightarrow> Inl (AdapterNotFound (primaryPath si))
      | Some primary \<Rightarrow>
          if supportsOverride (adapterName si) then
            (case moduleLoader (genericPath si) of
               None \<Rightarrow> Inr primary
             | Some override \<Rightarrow> Inr (mergeAdapter primary override))
          else Inr primary)"

section \<open>Vocabulary for the statements about token extraction\<close>

text \<open>
  Where the span of a placeholder ends in the URL that is left: line 74 to 79 of the
  source, as a function of the remaining URL and of the pattern text that follows the
  closing brace.
\<close>

definition spanEnd :: "string \<Rightarrow> string \<Rightarrow> int" where
  "spanEnd u rest =
     (let slash = indexOf u ''/'';
          stop = (if slash < 0 then int (length u) else slash)
      in if rest \<noteq> '''' \<and> 0 \<le> indexOf u rest then min stop (indexOf u rest) else stop)"

text \<open>
  A pattern read as a literal prefix followed by placeholders, each with the literal
  text that follows it: the triple is (placeholder name, value in the URL, literal
  after the placeholder). \<open>patternOf\<close> writes the pattern, \<open>urlOf\<close> the URL in which
  every placeholder is replaced by its value.
\<close>

type_synonym binding = "string \<times> string \<times> string"

fun patternOf :: "binding list \<Rightarrow> string" where
  "patternOf [] = []"
| "patternOf ((nm, v, lit) # bs) = ''{'' @ nm @ ''}'' @ lit @ patternOf bs"

fun urlOf :: "binding list \<Rightarrow> string" where
  "urlOf [] = []"
| "urlOf ((nm, v, lit) # bs) = v @ lit @ urlOf bs"

text \<open>
  The patterns on which extraction gives every placeholder its value: names without a
  closing brace, values without a slash, literal text without an opening brace, and
  after each placeholder either a slash, or the end of the pattern, or a closing
  literal (the last text of the pattern) that is first found in what is left of the
  URL where the value ends.
\<close>

fun delimited :: "binding list \<Rightarrow> bool" where
  "delimited [] = True"
| "delimited ((nm, v, lit) # bs) =
     (CHR ''}'' \<notin> set nm \<and> CHR ''/'' \<notin> set v \<and> CHR ''{'' \<notin> set lit \<and>
      (if lit = [] then bs = []
       else hd lit = CHR ''/'' \<or> (bs = [] \<and> indexOf (v @ lit) lit = int (length v))) \<and>
      delimited bs)"

fun bindAll :: "tokenMap \<Rightarrow> binding list \<Rightarrow> tokenMap" where
  "bindAll tv [] = tv"
| "bindAll tv ((nm, v, lit) # bs) = bindAll (setProp tv nm v) bs"

section \<open>Vocabulary for the statements about compiled patterns\<close>

text \<open>
  A text has a placeholder when, somewhere in it, a pair of braces encloses a run of
  token characters.
\<close>

definition hasPlaceholder :: "string \<Rightarrow> bool" where
  "hasPlaceholder s \<longleftrightarrow> (\<exists>a n b. s = a @ ''{'' @ n @ ''}'' @ b \<and> list_all isTokenChar n)"

text \<open>
  The same reading of a pattern, prefix and placeholders with the literal text after
  each, gives the regular expression the pattern should compile to: the source text
  \<open>regexOf\<close>, the program \<open>programOf\<close> of the fragment, and the URLs it should
  accept, those that replace every placeholder by a non-empty run of token characters
  (\<open>tokenValued\<close>) and leave the \<open>shape\<close> alone.
\<close>

definition tokenRanges :: "(char \<times> char) list" where
  "tokenRanges =
     [(CHR ''a'', CHR ''z''), (CHR ''A'', CHR ''Z''), (CHR ''0'', CHR ''9''),
      (CHR ''-'', CHR ''-''), (CHR ''_'', CHR ''_''), (CHR ''~'', CHR ''~'')]"

fun regexOf :: "binding list \<Rightarrow> string" where
  "regexOf [] = []"
| "regexOf ((nm, v, lit) # bs) = tokenClass @ escapeSlashes lit @ regexOf bs"

definition plainText :: "string \<Rightarrow> bool" where
  "plainText s = list_all (\<lambda>c. c \<notin> set syntaxChars) s"

fun namedPlaceholders :: "binding list \<Rightarrow> bool" where
  "namedPlaceholders [] = True"
| "namedPlaceholders ((nm, v, lit) # bs) =
     (list_all isTokenChar nm \<and> plainText lit \<and> namedPlaceholders bs)"

fun tokenValued :: "binding list \<Rightarrow> bool" where
  "tokenValued [] = True"
| "tokenValued ((nm, v, lit) # bs) = (v \<noteq> [] \<and> list_all isTokenChar v \<and> tokenValued bs)"

fun shape :: "binding list \<Rightarrow> (string \<times> string) list" where
  "shape [] = []"
| "shape ((nm, v, lit) # bs) = (nm, lit) # shape bs"

fun programOf :: "binding list \<Rightarrow> item list" where
  "programOf [] = []"
| "programOf ((nm, v, lit) # bs) =
     Plus (Class tokenRanges) # map (\<lambda>c. Once (Lit c)) lit @ programOf bs"

section \<open>Vocabulary for the statements about route lookup\<close>

text \<open>
  The state after a list of \<^verbatim>\<open>getRouteInfo\<close> calls, each given by its four
  arguments, whatever the calls returned or threw.
\<close>

type_synonym call = "string \<times> string \<times> jsval \<times> string"

fun afterCalls :: "engine \<Rightarrow> (string \<rightharpoonup> appConfig) \<Rightarrow> call list \<Rightarrow> state \<Rightarrow> state option" where
  "afterCalls E cfgs [] st = Some st"
| "afterCalls E cfgs ((app, u, q, l) # calls) st =
     (case getRouteInfo E cfgs app u q l st of
        None \<Rightarrow> None
      | Some (res, st') \<Rightarrow> afterCalls E cfgs calls st')"

section \<open>A sample application\<close>

text \<open>
  The state the module starts in (\<^verbatim>\<open>var routeInfoCache = {}; var appRouteCache = {};\<close>)
  and one application, \<open>blog\<close>, with a single route \<^verbatim>\<open>/posts/{id}\<close> that sets no
  \<open>strip\<close> of its own under an application default of \<open>false\<close>. The statements
  below are tried on it.
\<close>

definition initialState :: state where
  "initialState = \<lparr> routeInfoCache = Map.empty, appRouteCache = Map.empty \<rparr>"

definition postDecl :: routeDecl where
  "postDecl =
     \<lparr> r_name = ''post'', r_urls = [''/posts/{id}''], r_layout = None, r_wrapper = None,
       r_strip = None, r_contentType = None, r_data = None, r_serverOnly = None \<rparr>"

definition blogConfig :: appConfig where
  "blogConfig =
     \<lparr> routes = [postDecl], defaultLayout = JUndefined, defaultWrapper = JUndefined,
       defaultStrip = JBool False, a_data = JUndefined, a_serverOnly = JUndefined \<rparr>"

definition sampleConfigs :: "string \<rightharpoonup> appConfig" where
  "sampleConfigs = [''blog'' \<mapsto> blogConfig]"

definition postsRegex :: regexp where
  "postsRegex =
     \<lparr> source = ''^'' @ escapeSlashes ''/posts/'' @ tokenClass @ ''$'',
       test = fullMatch (map (\<lambda>c. Once (Lit c)) ''/posts/'' @ [Plus (Class tokenRanges)]) \<rparr>"

definition postRoute :: route where
  "postRoute = makeRoute ''blog'' blogConfig postDecl ''/posts/{id}'' postsRegex"

definition sampleRouteInfo :: routeInfo where
  "sampleRouteInfo = makeRouteInfo ''blog'' ''en'' ''/posts/42'' (JObj []) [(''id'', ''42'')] postRoute"

definition sampleOpts :: opts where
  "sampleOpts =
     \<lparr> loadPage = (\<lambda>path. if path = ''app/blog/pages/post.page''
                         then Inr \<lparr> model = JUndefined, defaults = JUndefined \<rparr>
                         else Inl (Error (''Cannot find module '' @ path))),
       loadModule = (\<lambda>f deps. Inr (Fulfilled (JObj [(''app'', JStr (d_appName deps))]))),
       renderPage = (\<lambda>ri pg mdl. JStr (''<html>'' @ url ri @ ''</html>'')),
       stringify = (\<lambda>mdl. ''{}'') \<rparr>"



text \<open>
  The adapters of the unit test for \<^verbatim>\<open>getAdapter()\<close>: the injector of that test
  answers every path that contains \<^verbatim>\<open>solr\<close> with the first module and every other
  path with the second.
\<close>

definition solrAdapter :: "string adapter" where
  "solrAdapter = [''one'' \<mapsto> ''one'', ''two'' \<mapsto> ''two'']"

definition genericAdapter :: "string adapter" where
  "genericAdapter = [''two'' \<mapsto> ''override'', ''three'' \<mapsto> ''three'']"

definition fixtureLoader :: "string \<rightharpoonup> string adapter" where
  "fixtureLoader path = (if 0 \<le> indexOf path ''solr'' then Some solrAdapter else Some genericAdapter)"

definition fixtureGenericPath :: "serviceInfo \<Rightarrow> string" where
  "fixtureGenericPath si = ''adapters/'' @ adapterName si @ ''/'' @ resourceName si"

section \<open>Properties of the string primitives\<close>

lemma indexOf_lower: "- 1 \<le> indexOf s sub"
  by (induction s) (auto simp: Let_def)

lemma indexOf_absent: "c \<notin> set s \<Longrightarrow> indexOf s [c] = - 1"
  by (induction s) (auto simp: Let_def)

lemma indexOf_first: "c \<notin> set pre \<Longrightarrow> indexOf (pre @ c # rest) [c] = int (length pre)"
  by (induction pre) (auto simp: Let_def)

lemma indexOf_prefix: "0 \<le> indexOf s sub \<Longrightarrow> prefix sub (drop (nat (indexOf s sub)) s)"
proof (induction s)
  case Nil
  then show ?case by (auto split: if_splits)
next
  case (Cons c cs)
  show ?case
  proof (cases "prefix sub (c # cs)")
    case True
    then show ?thesis by simp
  next
    case False
    with Cons.prems have nn: "0 \<le> indexOf cs sub"
      by (auto simp: Let_def split: if_splits)
    with False have "indexOf (c # cs) sub = indexOf cs sub + 1"
      by (simp add: Let_def)
    moreover have "nat (indexOf cs sub + 1) = Suc (nat (indexOf cs sub))"
      using nn by simp
    ultimately show ?thesis using Cons.IH [OF nn] by simp
  qed
qed

lemma indexOf_nonempty_lt:
  "0 \<le> indexOf s (c # sub) \<Longrightarrow> indexOf s (c # sub) < int (length s)"
  by (induction s) (auto simp: Let_def split: if_splits)

lemma indexOf_hits_head:
  assumes "0 \<le> indexOf s (c # sub)"
  shows "s ! nat (indexOf s (c # sub)) = c"
proof -
  from indexOf_prefix [OF assms]
  obtain zs where "drop (nat (indexOf s (c # sub))) s = (c # sub) @ zs"
    by (auto simp: prefix_def)
  moreover have "nat (indexOf s (c # sub)) < length s"
    using indexOf_nonempty_lt [OF assms] assms by simp
  ultimately show ?thesis
    by (metis append_Cons hd_drop_conv_nth list.sel(1))
qed

section \<open>The token loop always ends\<close>

lemma loopBody_shrinks:
  assumes "loopBody p u tv = Inr (p', u', tv')"
  shows "length p' < length p"
proof -
  define idx where "idx = indexOf p ''{''"
  define p1 where "p1 = substringFrom p (idx + 1)"
  from assms have nn: "0 \<le> idx"
    by (auto simp: loopBody_def Let_def idx_def split: if_splits)
  then have "idx < int (length p)"
    unfolding idx_def by (rule indexOf_nonempty_lt)
  with nn have l1: "length p1 < length p"
    by (auto simp: p1_def substringFrom_def substring_def Let_def)
  from assms have "p' = [] \<or> (\<exists>k. p' = substringFrom p1 k)"
    by (auto simp: loopBody_def Let_def idx_def p1_def split: if_splits)
  then have "length p' \<le> length p1"
    by (auto simp: substringFrom_def substring_def Let_def)
  with l1 show ?thesis by simp
qed

lemma tokenLoop_total: "\<exists>r. tokenLoop p u tv = Some r"
proof (induction p arbitrary: u tv rule: length_induct)
  case (1 p)
  show ?case
  proof (cases "loopBody p u tv")
    case (Inl r)
    then show ?thesis by (subst tokenLoop.simps) simp
  next
    case (Inr st)
    obtain p' u' tv' where st: "st = (p', u', tv')" by (cases st)
    from Inr st have "length p' < length p" by (simp add: loopBody_shrinks)
    with 1 obtain r where "tokenLoop p' u' tv' = Some r" by blast
    with Inr st show ?thesis by (subst tokenLoop.simps) simp
  qed
qed

text \<open>
  C9. \<^verbatim>\<open>getTokenValuesFromUrl\<close> returns for every pattern and every URL, whatever
  braces the pattern has: a pass through the loop body that does not leave the loop
  hands a strictly shorter pattern to the next pass; when the pattern has no opening
  brace left, or an opening brace with no closing brace after it, the loop ends with
  the token object built so far.
\<close>

theorem getTokenValuesFromUrl_terminates:
  "(\<exists>r. getTokenValuesFromUrl p u = Some r) \<and>
   (\<exists>r. tokenLoop p u tv = Some r) \<and>
   (\<forall>p' u' tv'. loopBody p u tv = Inr (p', u', tv') \<longrightarrow> length p' < length p) \<and>
   (indexOf p ''{'' < 0 \<longrightarrow> tokenLoop p u tv = Some tv) \<and>
   (0 \<le> indexOf p ''{'' \<and> indexOf (substringFrom p (indexOf p ''{'' + 1)) ''}'' < 0 \<longrightarrow>
      tokenLoop p u tv = Some tv)"
proof -
  have exhausted: "tokenLoop p u tv = Some tv" if "indexOf p ''{'' < 0"
  proof -
    from that have "loopBody p u tv = Inl tv" by (simp add: loopBody_def)
    then show ?thesis by (subst tokenLoop.simps) simp
  qed
  have malformed: "tokenLoop p u tv = Some tv"
    if "0 \<le> indexOf p ''{'' \<and> indexOf (substringFrom p (indexOf p ''{'' + 1)) ''}'' < 0"
  proof -
    from that have "loopBody p u tv = Inl tv" by (simp add: loopBody_def Let_def)
    then show ?thesis by (subst tokenLoop.simps) simp
  qed
  show ?thesis
    unfolding getTokenValuesFromUrl_def
    using tokenLoop_total [of p u "[]"] tokenLoop_total [of p u tv]
      loopBody_shrinks [of p u tv] exhausted malformed
    by blast
qed

theorem getTokenValuesFromUrl_terminates_witness:
  "indexOf ''/a/{b}/{c'' ''{'' = 3 \<and>
   loopBody ''/a/{b}/{c'' ''/a/1/2'' [] = Inr (''/{c'', ''/2'', [(''b'', ''1'')]) \<and>
   length ''/{c'' < length ''/a/{b}/{c'' \<and>
   0 \<le> indexOf ''/{c'' ''{'' \<and>
   indexOf (substringFrom ''/{c'' (indexOf ''/{c'' ''{'' + 1)) ''}'' < 0 \<and>
   tokenLoop ''/{c'' ''/2'' [(''b'', ''1'')] = Some [(''b'', ''1'')] \<and>
   indexOf ''/a'' ''{'' < 0 \<and>
   tokenLoop ''/a'' ''/b'' [] = Some []"
proof -
  have body: "loopBody ''/a/{b}/{c'' ''/a/1/2'' [] = Inr (''/{c'', ''/2'', [(''b'', ''1'')])"
    by (simp add: loopBody_def Let_def substring_def substringFrom_def setProp_def)
  have open_brace: "0 \<le> indexOf ''/{c'' ''{'' \<and>
      indexOf (substringFrom ''/{c'' (indexOf ''/{c'' ''{'' + 1)) ''}'' < 0"
    by (simp add: Let_def substring_def substringFrom_def)
  have none: "indexOf ''/a'' ''{'' < 0"
    by simp
  from getTokenValuesFromUrl_terminates [of "''/a/{b}/{c''" "''/a/1/2''" "[]"] body
  have shorter: "length ''/{c'' < length ''/a/{b}/{c''" by blast
  from getTokenValuesFromUrl_terminates [of "''/{c''" "''/2''" "[(''b'', ''1'')]"] open_brace
  have stop1: "tokenLoop ''/{c'' ''/2'' [(''b'', ''1'')] = Some [(''b'', ''1'')]" by blast
  from getTokenValuesFromUrl_terminates [of "''/a''" "''/b''" "[]"] none
  have stop2: "tokenLoop ''/a'' ''/b'' [] = Some []" by blast
  have first: "indexOf ''/a/{b}/{c'' ''{'' = 3" by simp
  from first body shorter open_brace stop1 none stop2 show ?thesis by blast
qed

section \<open>One placeholder, one span\<close>

lemma substringFrom_drop: "0 \<le> i \<Longrightarrow> substringFrom s i = drop (nat i) s"
  by (auto simp: substringFrom_def substring_def Let_def min_def max_def)

lemma substring_take: "0 \<le> i \<Longrightarrow> substring s 0 i = take (nat i) s"
  by (auto simp: substring_def Let_def min_def max_def)

lemma spanEnd_nonneg: "0 \<le> spanEnd u rest"
  by (auto simp: spanEnd_def Let_def min_def)

lemma loopBody_placeholder:
  assumes "CHR ''{'' \<notin> set pre" and "CHR ''}'' \<notin> set nm"
  shows "loopBody (pre @ ''{'' @ nm @ ''}'' @ rest) u tv =
           Inr (rest,
                drop (nat (spanEnd (drop (length pre) u) rest)) (drop (length pre) u),
                setProp tv nm (take (nat (spanEnd (drop (length pre) u) rest)) (drop (length pre) u)))"
proof -
  let ?p = "pre @ ''{'' @ nm @ ''}'' @ rest"
  let ?p1 = "nm @ ''}'' @ rest"
  have i0: "indexOf ?p ''{'' = int (length pre)"
    using indexOf_first [OF assms(1)] by simp
  have p1: "substringFrom ?p (int (length pre) + 1) = ?p1"
    by (simp add: substringFrom_drop nat_add_distrib)
  have i1: "indexOf ?p1 ''}'' = int (length nm)"
    using indexOf_first [OF assms(2)] by simp
  have nm: "substring ?p1 0 (int (length nm)) = nm"
    by (simp add: substring_take)
  have p2: "(if int (length nm) = int (length ?p1) - 1 then ''''
             else substringFrom ?p1 (int (length nm) + 1)) = rest"
    by (auto simp: substringFrom_drop nat_add_distrib)
  have u1: "substringFrom u (int (length pre)) = drop (length pre) u"
    by (simp add: substringFrom_drop)
  show ?thesis
    unfolding loopBody_def i0 Let_def p1 i1 nm p2 u1
    using spanEnd_nonneg [of "drop (length pre) u" rest]
    by (simp add: spanEnd_def Let_def substring_take substringFrom_drop)
qed

lemma spanEnd_last: "CHR ''/'' \<notin> set v \<Longrightarrow> spanEnd v [] = int (length v)"
  by (simp add: spanEnd_def indexOf_absent)

lemma spanEnd_slash:
  assumes "CHR ''/'' \<notin> set v"
  shows "spanEnd (v @ CHR ''/'' # w) (CHR ''/'' # r) = int (length v)"
proof -
  let ?u = "v @ CHR ''/'' # w"
  let ?i = "indexOf ?u (CHR ''/'' # r)"
  have sl: "indexOf ?u ''/'' = int (length v)"
    using indexOf_first [OF assms] by simp
  have "int (length v) \<le> ?i" if nn: "0 \<le> ?i"
  proof (rule ccontr)
    assume "\<not> int (length v) \<le> ?i"
    with nn have lt: "nat ?i < length v" by simp
    have "?u ! nat ?i = CHR ''/''" using indexOf_hits_head [OF nn] .
    with lt have "v ! nat ?i = CHR ''/''" by (simp add: nth_append)
    with lt assms show False by (metis nth_mem)
  qed
  then show ?thesis
    unfolding spanEnd_def Let_def sl by (simp add: min_def)
qed

lemma spanEnd_closing:
  assumes "CHR ''/'' \<notin> set v" and "lit \<noteq> []" and "indexOf (v @ lit) lit = int (length v)"
  shows "spanEnd (v @ lit) lit = int (length v)"
proof -
  let ?s = "indexOf (v @ lit) ''/''"
  have "int (length v) \<le> ?s" if nn: "0 \<le> ?s"
  proof (rule ccontr)
    assume "\<not> int (length v) \<le> ?s"
    with nn have lt: "nat ?s < length v" by simp
    have "(v @ lit) ! nat ?s = CHR ''/''" using indexOf_hits_head [OF nn] .
    with lt have "v ! nat ?s = CHR ''/''" by (simp add: nth_append)
    with lt assms(1) show False by (metis nth_mem)
  qed
  then show ?thesis
    using assms(2,3) by (auto simp: spanEnd_def Let_def min_def)
qed

lemma tokenLoop_bindings:
  assumes "CHR ''{'' \<notin> set pre" and "length upre = length pre" and "delimited bs"
  shows "tokenLoop (pre @ patternOf bs) (upre @ urlOf bs) tv = Some (bindAll tv bs)"
  using assms
proof (induction bs arbitrary: pre upre tv)
  case Nil
  then have "loopBody pre upre tv = Inl tv"
    by (simp add: loopBody_def indexOf_absent)
  then show ?case by (subst tokenLoop.simps) simp
next
  case (Cons b bs)
  obtain nm v lit where b: "b = (nm, v, lit)" by (cases b)
  from Cons.prems b have nm: "CHR ''}'' \<notin> set nm" and vs: "CHR ''/'' \<notin> set v"
    and lt: "CHR ''{'' \<notin> set lit" and sd: "delimited bs"
    and sh: "if lit = [] then bs = []
             else hd lit = CHR ''/'' \<or> (bs = [] \<and> indexOf (v @ lit) lit = int (length v))"
    by simp_all
  have dr: "drop (length pre) (upre @ urlOf (b # bs)) = v @ lit @ urlOf bs"
    using Cons.prems(2) b by simp
  have se: "spanEnd (v @ lit @ urlOf bs) (lit @ patternOf bs) = int (length v)"
  proof (cases lit)
    case Nil
    with sh have "bs = []" by simp
    with Nil vs show ?thesis by (simp add: spanEnd_last)
  next
    case (Cons c l')
    with sh consider "c = CHR ''/''" | "bs = []" "indexOf (v @ lit) lit = int (length v)"
      by auto
    then show ?thesis
    proof cases
      case 1
      with Cons vs show ?thesis using spanEnd_slash [OF vs] by simp
    next
      case 2
      with Cons show ?thesis using spanEnd_closing [OF vs, of lit] by simp
    qed
  qed
  have step: "loopBody (pre @ patternOf (b # bs)) (upre @ urlOf (b # bs)) tv =
                Inr (lit @ patternOf bs, lit @ urlOf bs, setProp tv nm v)"
    using loopBody_placeholder [OF Cons.prems(1) nm, of "lit @ patternOf bs" "upre @ urlOf (b # bs)" tv]
    unfolding dr se by (simp add: b)
  have "tokenLoop (lit @ patternOf bs) (lit @ urlOf bs) (setProp tv nm v) =
          Some (bindAll (setProp tv nm v) bs)"
    using Cons.IH [OF lt _ sd] by simp
  with step show ?case by (subst tokenLoop.simps) (simp add: b)
qed

lemma indexOf_occurs: "0 \<le> indexOf s sub \<Longrightarrow> set sub \<subseteq> set s"
proof -
  assume "0 \<le> indexOf s sub"
  then have "prefix sub (drop (nat (indexOf s sub)) s)" by (rule indexOf_prefix)
  then have "set sub \<subseteq> set (drop (nat (indexOf s sub)) s)" by (rule set_mono_prefix)
  then show ?thesis using set_drop_subset by fastforce
qed

lemma take_to_char:
  "take (nat (if indexOf s [c] < 0 then int (length s) else indexOf s [c])) s =
     takeWhile (\<lambda>x. x \<noteq> c) s"
proof (induction s)
  case Nil
  show ?case by simp
next
  case (Cons a s)
  show ?case
  proof (cases "a = c")
    case True
    then show ?thesis by simp
  next
    case False
    have nn: "- 1 \<le> indexOf s [c]" by (rule indexOf_lower)
    from False have "indexOf (a # s) [c] = (if indexOf s [c] < 0 then - 1 else indexOf s [c] + 1)"
      by (simp add: Let_def)
    with False Cons.IH nn show ?thesis
      by (auto simp: nat_add_distrib)
  qed
qed

lemma drop_to_char:
  "drop (nat (if indexOf s [c] < 0 then int (length s) else indexOf s [c])) s =
     dropWhile (\<lambda>x. x \<noteq> c) s"
proof -
  let ?n = "nat (if indexOf s [c] < 0 then int (length s) else indexOf s [c])"
  have "take ?n s @ drop ?n s = takeWhile (\<lambda>x. x \<noteq> c) s @ dropWhile (\<lambda>x. x \<noteq> c) s"
    by simp
  also have "takeWhile (\<lambda>x. x \<noteq> c) s = take ?n s"
    by (rule take_to_char [symmetric])
  finally show ?thesis by (simp only: same_append_eq)
qed

lemma spanEnd_unfound:
  assumes "c \<in> set rest" and "c \<notin> set u"
  shows "spanEnd u rest = (if indexOf u ''/'' < 0 then int (length u) else indexOf u ''/'')"
proof -
  from assms have "\<not> 0 \<le> indexOf u rest" using indexOf_occurs [of u rest] by blast
  then show ?thesis by (simp add: spanEnd_def Let_def)
qed

lemma loopBody_further_placeholder:
  assumes "CHR ''{'' \<notin> set pre" and "CHR ''}'' \<notin> set nm"
    and "CHR ''{'' \<in> set rest" and "CHR ''{'' \<notin> set u"
  shows "loopBody (pre @ ''{'' @ nm @ ''}'' @ rest) u tv =
           Inr (rest, dropWhile (\<lambda>c. c \<noteq> CHR ''/'') (drop (length pre) u),
                setProp tv nm (takeWhile (\<lambda>c. c \<noteq> CHR ''/'') (drop (length pre) u)))"
proof -
  let ?u = "drop (length pre) u"
  from assms(4) have "CHR ''{'' \<notin> set ?u" by (meson in_set_dropD)
  with assms(3) have
    "spanEnd ?u rest = (if indexOf ?u ''/'' < 0 then int (length ?u) else indexOf ?u ''/'')"
    by (rule spanEnd_unfound)
  then show ?thesis
    using loopBody_placeholder [OF assms(1,2), of rest u tv]
      take_to_char [of ?u "CHR ''/''"] drop_to_char [of ?u "CHR ''/''"]
    by simp
qed

text \<open>
  C1. \<^verbatim>\<open>getTokenValuesFromUrl\<close> walks pattern and URL in lockstep, and the span it
  records for a placeholder is not always bounded by the literal that follows the
  placeholder. Lines 77 to 79 look in the URL for the whole of the pattern that is
  left after the closing brace, later placeholders included, and not for the literal
  text up to the next placeholder. So whenever a further placeholder follows and the
  URL has no brace in it, the search finds nothing and the span runs to the next
  \<open>/\<close> of the URL, or to its end, through the delimiter. For \<^verbatim>\<open>/a/{x}-{y}\<close> and
  \<^verbatim>\<open>/a/1-2\<close> the hyphen stands after \<^verbatim>\<open>{x}\<close> in the pattern and in the URL, and
  the regular expression of the route accepts the URL (and does not accept
  \<^verbatim>\<open>/a/1-\<close>, with nothing for \<open>y\<close>); yet \<open>x\<close> is bound to \<^verbatim>\<open>1-2\<close> and \<open>y\<close> to
  the empty string. The values that follow are displaced as well:
  \<^verbatim>\<open>/a/{x}-{y}/b/{z}\<close> on \<^verbatim>\<open>/a/1-2/b/3\<close> binds \<open>y\<close> to \<^verbatim>\<open>b\<close> and \<open>z\<close> to the
  empty string. Where every placeholder is followed by a \<open>/\<close>, ends the pattern or is
  followed by a closing literal (\<open>delimited\<close>), and the URL is the pattern with each
  placeholder replaced by a value without \<open>/\<close>, every placeholder is bound to its
  value; \<^verbatim>\<open>/posts/{id}\<close> and \<^verbatim>\<open>/posts/42\<close> give exactly \<^verbatim>\<open>{id: "42"}\<close>.
\<close>

theorem getTokenValuesFromUrl_misses_inner_delimiter:
  "(CHR ''{'' \<notin> set pre \<and> CHR ''}'' \<notin> set nm \<and> CHR ''{'' \<in> set rest \<and> CHR ''{'' \<notin> set u \<longrightarrow>
      loopBody (pre @ ''{'' @ nm @ ''}'' @ rest) u tv =
        Inr (rest, dropWhile (\<lambda>c. c \<noteq> CHR ''/'') (drop (length pre) u),
             setProp tv nm (takeWhile (\<lambda>c. c \<noteq> CHR ''/'') (drop (length pre) u)))) \<and>
   getTokenValuesFromUrl ''/a/{x}-{y}'' ''/a/1-2'' = Some [(''x'', ''1-2''), (''y'', '''')] \<and>
   getTokenValuesFromUrl ''/a/{x}-{y}'' ''/a/1-2'' \<noteq> Some [(''x'', ''1''), (''y'', ''2'')] \<and>
   (\<exists>rx. convertUrlPatternToRegex fragmentEngine ''/a/{x}-{y}'' = Inr rx \<and>
      test rx ''/a/1-2'' \<and> \<not> test rx ''/a/1-'') \<and>
   getTokenValuesFromUrl ''/a/{x}-{y}/b/{z}'' ''/a/1-2/b/3'' =
     Some [(''x'', ''1-2''), (''y'', ''b''), (''z'', '''')] \<and>
   (CHR ''{'' \<notin> set pre \<and> length upre = length pre \<and> delimited bs \<longrightarrow>
      getTokenValuesFromUrl (pre @ patternOf bs) (upre @ urlOf bs) = Some (bindAll [] bs)) \<and>
   getTokenValuesFromUrl ''/posts/{id}'' ''/posts/42'' = Some [(''id'', ''42'')]"
proof -
  have two: "getTokenValuesFromUrl ''/a/{x}-{y}'' ''/a/1-2'' = Some [(''x'', ''1-2''), (''y'', '''')]"
    by code_simp
  then have differs:
    "getTokenValuesFromUrl ''/a/{x}-{y}'' ''/a/1-2'' \<noteq> Some [(''x'', ''1''), (''y'', ''2'')]"
    by simp
  have "(case convertUrlPatternToRegex fragmentEngine ''/a/{x}-{y}'' of
           Inl e \<Rightarrow> False
         | Inr rx \<Rightarrow> test rx ''/a/1-2'' \<and> \<not> test rx ''/a/1-'')"
    by code_simp
  then have matched: "\<exists>rx. convertUrlPatternToRegex fragmentEngine ''/a/{x}-{y}'' = Inr rx \<and>
      test rx ''/a/1-2'' \<and> \<not> test rx ''/a/1-''"
    by (cases "convertUrlPatternToRegex fragmentEngine ''/a/{x}-{y}''") auto
  have three: "getTokenValuesFromUrl ''/a/{x}-{y}/b/{z}'' ''/a/1-2/b/3'' =
      Some [(''x'', ''1-2''), (''y'', ''b''), (''z'', '''')]"
    by code_simp
  have posts: "getTokenValuesFromUrl ''/posts/{id}'' ''/posts/42'' = Some [(''id'', ''42'')]"
    by code_simp
  have roundtrip: "CHR ''{'' \<notin> set pre \<and> length upre = length pre \<and> delimited bs \<longrightarrow>
      getTokenValuesFromUrl (pre @ patternOf bs) (upre @ urlOf bs) = Some (bindAll [] bs)"
    unfolding getTokenValuesFromUrl_def using tokenLoop_bindings [of pre upre bs "[]"] by blast
  from two differs matched three posts roundtrip show ?thesis
    using loopBody_further_placeholder [of pre nm rest u tv] by blast
qed

theorem getTokenValuesFromUrl_misses_inner_delimiter_witness:
  "CHR ''{'' \<notin> set ''/a/'' \<and> CHR ''}'' \<notin> set ''x'' \<and> CHR ''{'' \<in> set ''-{y}'' \<and>
   CHR ''{'' \<notin> set ''/a/1-2'' \<and>
   indexOf ''-{y}'' ''-'' = 0 \<and> indexOf ''1-2'' ''-'' = 1 \<and>
   loopBody ''/a/{x}-{y}'' ''/a/1-2'' [] = Inr (''-{y}'', '''', [(''x'', ''1-2'')]) \<and>
   length ''/u/'' = length ''/u/'' \<and>
   delimited [(''user'', ''7'', ''/posts/''), (''id'', ''42'', ''.html'')] \<and>
   getTokenValuesFromUrl ''/u/{user}/posts/{id}.html'' ''/u/7/posts/42.html'' =
     Some [(''user'', ''7''), (''id'', ''42'')]"
proof -
  have hyp: "CHR ''{'' \<notin> set ''/a/'' \<and> CHR ''}'' \<notin> set ''x'' \<and> CHR ''{'' \<in> set ''-{y}'' \<and>
      CHR ''{'' \<notin> set ''/a/1-2''"
    by simp
  have hyphen: "indexOf ''-{y}'' ''-'' = 0 \<and> indexOf ''1-2'' ''-'' = 1"
    by simp
  from getTokenValuesFromUrl_misses_inner_delimiter
         [of "''/a/''" "''x''" "''-{y}''" "''/a/1-2''" "[]"] hyp
  have "loopBody (''/a/'' @ ''{'' @ ''x'' @ ''}'' @ ''-{y}'') ''/a/1-2'' [] =
          Inr (''-{y}'', dropWhile (\<lambda>c. c \<noteq> CHR ''/'') (drop (length ''/a/'') ''/a/1-2''),
               setProp [] ''x'' (takeWhile (\<lambda>c. c \<noteq> CHR ''/'') (drop (length ''/a/'') ''/a/1-2'')))"
    by blast
  then have body: "loopBody ''/a/{x}-{y}'' ''/a/1-2'' [] = Inr (''-{y}'', '''', [(''x'', ''1-2'')])"
    by (simp add: setProp_def)
  have sd: "delimited [(''user'', ''7'', ''/posts/''), (''id'', ''42'', ''.html'')]"
    by simp
  have pre: "CHR ''{'' \<notin> set ''/u/'' \<and> length ''/u/'' = length ''/u/''"
    by simp
  from getTokenValuesFromUrl_misses_inner_delimiter
         [where pre = "''/u/''" and upre = "''/u/''"
            and bs = "[(''user'', ''7'', ''/posts/''), (''id'', ''42'', ''.html'')]"] pre sd
  have "getTokenValuesFromUrl
          (''/u/'' @ patternOf [(''user'', ''7'', ''/posts/''), (''id'', ''42'', ''.html'')])
          (''/u/'' @ urlOf [(''user'', ''7'', ''/posts/''), (''id'', ''42'', ''.html'')]) =
        Some (bindAll [] [(''user'', ''7'', ''/posts/''), (''id'', ''42'', ''.html'')])"
    by blast
  then have rt: "getTokenValuesFromUrl ''/u/{user}/posts/{id}.html'' ''/u/7/posts/42.html'' =
      Some [(''user'', ''7''), (''id'', ''42'')]"
    by (simp add: setProp_def)
  from hyp hyphen body sd rt show ?thesis by simp
qed

section \<open>What a pattern compiles to\<close>

lemma isTokenChar_brace [simp]: "\<not> isTokenChar (CHR ''}'')" "\<not> isTokenChar (CHR ''{'')"
  by (simp_all add: isTokenChar_def)

lemma replaceTokens_literal: "CHR ''{'' \<notin> set pre \<Longrightarrow> replaceTokens (pre @ s) = pre @ replaceTokens s"
  by (induction pre) auto

lemma dropWhile_name:
  "list_all isTokenChar nm \<Longrightarrow> dropWhile isTokenChar (nm @ CHR ''}'' # rest) = CHR ''}'' # rest"
  by (induction nm) auto

lemma replaceTokens_placeholder:
  "list_all isTokenChar nm \<Longrightarrow>
     replaceTokens (''{'' @ nm @ ''}'' @ rest) = tokenClass @ replaceTokens rest"
  by (simp add: dropWhile_name)

lemma plainText_no_brace: "plainText s \<Longrightarrow> CHR ''{'' \<notin> set s"
  by (induction s) (auto simp: plainText_def syntaxChars_def)

lemma escapeSlashes_append [simp]: "escapeSlashes (a @ b) = escapeSlashes a @ escapeSlashes b"
  by (simp add: escapeSlashes_def)

lemma escapeSlashes_tokenClass [simp]: "escapeSlashes tokenClass = tokenClass"
  by (simp add: escapeSlashes_def tokenClass_def bslash_def)

lemma replaceTokens_patternOf:
  "namedPlaceholders bs \<Longrightarrow> escapeSlashes (replaceTokens (patternOf bs)) = regexOf bs"
proof (induction bs)
  case Nil
  then show ?case by (simp add: escapeSlashes_def)
next
  case (Cons b bs)
  obtain nm v lit where b: "b = (nm, v, lit)" by (cases b)
  with Cons.prems have nm: "list_all isTokenChar nm" and lit: "CHR ''{'' \<notin> set lit"
    and rest: "namedPlaceholders bs"
    by (simp_all add: plainText_no_brace)
  have "replaceTokens (patternOf (b # bs)) = tokenClass @ lit @ replaceTokens (patternOf bs)"
    using replaceTokens_placeholder [OF nm, of "lit @ patternOf bs"] replaceTokens_literal [OF lit]
    by (simp add: b)
  then show ?case using Cons.IH [OF rest] by (simp add: b)
qed

lemma source_of_pattern:
  assumes "plainText pre" and "namedPlaceholders bs"
  shows "''^'' @ escapeSlashes (replaceTokens (pre @ patternOf bs)) @ ''$'' =
         ''^'' @ escapeSlashes pre @ regexOf bs @ ''$''"
  using replaceTokens_literal [OF plainText_no_brace [OF assms(1)]] replaceTokens_patternOf [OF assms(2)]
  by simp

lemma parseClass_tokenClass:
  "parseClass (''a-zA-Z0-9'' @ [bslash] @ ''-_~]'' @ r) = Some (tokenRanges, r)"
  apply (subst parseClass.simps, simp add: classAtom.simps bslash_def identityEscapes_def syntaxChars_def)+
  apply (simp add: tokenRanges_def)
  done


lemma parseBody_tokenClass:
  "parseBody (tokenClass @ r) = map_option (\<lambda>is. Plus (Class tokenRanges) # is) (parseBody r)"
proof -
  have "parseBody (tokenClass @ r) =
      parseBody (CHR ''['' # (''a-zA-Z0-9'' @ [bslash] @ ''-_~]'' @ CHR ''+'' # r))"
    by (simp add: tokenClass_def)
  also have "\<dots> = map_option (\<lambda>is. Plus (Class tokenRanges) # is) (parseBody r)"
    using parseClass_tokenClass [of "CHR ''+'' # r"]
    by (subst parseBody.simps) (simp add: bslash_def)
  finally show ?thesis .
qed

lemma parseBody_literal:
  "plainText lit \<Longrightarrow>
     parseBody (escapeSlashes lit @ r) = map_option (\<lambda>is. map (\<lambda>c. Once (Lit c)) lit @ is) (parseBody r)"
proof (induction lit)
  case Nil
  then show ?case by (simp add: escapeSlashes_def option.map_ident)
next
  case (Cons c cs)
  then have plain: "c \<notin> set syntaxChars" and rest: "plainText cs"
    by (simp_all add: plainText_def)
  have tail: "parseBody (escapeSlashes cs @ r) =
      map_option (\<lambda>is. map (\<lambda>c. Once (Lit c)) cs @ is) (parseBody r)"
    using Cons.IH [OF rest] .
  show ?case
  proof (cases "c = CHR ''/''")
    case True
    have "escapeSlashes (c # cs) @ r = bslash # CHR ''/'' # (escapeSlashes cs @ r)"
      using True by (simp add: escapeSlashes_def)
    then have "parseBody (escapeSlashes (c # cs) @ r) =
        map_option (\<lambda>is. Once (Lit c) # is) (parseBody (escapeSlashes cs @ r))"
      using True
      by (subst parseBody.simps) (simp add: bslash_def identityEscapes_def syntaxChars_def)
    then show ?thesis
      using tail by (cases "parseBody r") simp_all
  next
    case False
    have "escapeSlashes (c # cs) @ r = c # (escapeSlashes cs @ r)"
      using False by (simp add: escapeSlashes_def)
    moreover from plain have "c \<noteq> CHR ''$''" "c \<noteq> CHR ''[''" "c \<noteq> bslash"
      by (auto simp: syntaxChars_def)
    ultimately have "parseBody (escapeSlashes (c # cs) @ r) =
        map_option (\<lambda>is. Once (Lit c) # is) (parseBody (escapeSlashes cs @ r))"
      using plain by (subst parseBody.simps) simp
    then show ?thesis
      using tail by (cases "parseBody r") simp_all
  qed
qed

lemma parseBody_regexOf:
  "namedPlaceholders bs \<Longrightarrow> parseBody (regexOf bs @ ''$'') = Some (programOf bs)"
proof (induction bs)
  case Nil
  show ?case by (subst parseBody.simps) simp
next
  case (Cons b bs)
  obtain nm v lit where b: "b = (nm, v, lit)" by (cases b)
  with Cons.prems have lit: "plainText lit" and rest: "namedPlaceholders bs" by simp_all
  show ?case
    using parseBody_tokenClass [of "escapeSlashes lit @ regexOf bs @ ''$''"]
      parseBody_literal [OF lit, of "regexOf bs @ ''$''"] Cons.IH [OF rest]
    by (simp add: b)
qed

lemma compile_pattern:
  assumes "plainText pre" and "namedPlaceholders bs"
  shows "compile (''^'' @ escapeSlashes pre @ regexOf bs @ ''$'') =
           Some (map (\<lambda>c. Once (Lit c)) pre @ programOf bs)"
  using parseBody_literal [OF assms(1), of "regexOf bs @ ''$''"] parseBody_regexOf [OF assms(2)]
  by (simp add: compile_def)

lemma accepts_tokenRanges: "accepts (Class tokenRanges) c = isTokenChar c"
  by (auto simp: tokenRanges_def isTokenChar_def)

lemma fullMatch_literal:
  "fullMatch (map (\<lambda>c. Once (Lit c)) lit @ is) s \<longleftrightarrow> (\<exists>w. s = lit @ w \<and> fullMatch is w)"
proof (induction lit arbitrary: s)
  case Nil
  show ?case by simp
next
  case (Cons c cs)
  show ?case by (cases s) (auto simp: Cons.IH)
qed

lemma fullMatch_plus:
  "fullMatch (Plus a # is) s \<longleftrightarrow>
     (\<exists>v w. v \<noteq> [] \<and> list_all (accepts a) v \<and> s = v @ w \<and> fullMatch is w)"
proof (induction s)
  case Nil
  show ?case by simp
next
  case (Cons c cs)
  show ?case
  proof
    assume "fullMatch (Plus a # is) (c # cs)"
    then have ac: "accepts a c" and alt: "fullMatch is cs \<or> fullMatch (Plus a # is) cs"
      by simp_all
    from alt show "\<exists>v w. v \<noteq> [] \<and> list_all (accepts a) v \<and> c # cs = v @ w \<and> fullMatch is w"
    proof
      assume "fullMatch is cs"
      with ac have "[c] \<noteq> [] \<and> list_all (accepts a) [c] \<and> c # cs = [c] @ cs \<and> fullMatch is cs"
        by simp
      then show ?thesis by blast
    next
      assume "fullMatch (Plus a # is) cs"
      with Cons.IH obtain v w where "v \<noteq> []" "list_all (accepts a) v" "cs = v @ w" "fullMatch is w"
        by blast
      with ac have "c # v \<noteq> [] \<and> list_all (accepts a) (c # v) \<and> c # cs = (c # v) @ w \<and> fullMatch is w"
        by simp
      then show ?thesis by blast
    qed
  next
    assume "\<exists>v w. v \<noteq> [] \<and> list_all (accepts a) v \<and> c # cs = v @ w \<and> fullMatch is w"
    then obtain v w where v: "v \<noteq> []" "list_all (accepts a) v" "c # cs = v @ w" "fullMatch is w"
      by blast
    then obtain v' where v': "v = c # v'" by (cases v) auto
    with v have ac: "accepts a c" and cs: "cs = v' @ w" and all: "list_all (accepts a) v'"
      by simp_all
    show "fullMatch (Plus a # is) (c # cs)"
    proof (cases "v' = []")
      case True
      with cs v(4) ac show ?thesis by simp
    next
      case False
      with all cs v(4) Cons.IH have "fullMatch (Plus a # is) cs" by blast
      with ac show ?thesis by simp
    qed
  qed
qed

lemma fullMatch_programOf:
  "fullMatch (programOf bs) s \<longleftrightarrow>
     (\<exists>bs'. shape bs' = shape bs \<and> tokenValued bs' \<and> s = urlOf bs')"
proof (induction bs arbitrary: s)
  case Nil
  show ?case
  proof
    assume "fullMatch (programOf []) s"
    then have "shape [] = shape ([] :: binding list) \<and> tokenValued [] \<and> s = urlOf []" by simp
    then show "\<exists>bs'. shape bs' = shape [] \<and> tokenValued bs' \<and> s = urlOf bs'" by blast
  next
    assume "\<exists>bs'. shape bs' = shape [] \<and> tokenValued bs' \<and> s = urlOf bs'"
    then obtain bs' where "shape bs' = []" "s = urlOf bs'" by auto
    moreover from this have "bs' = []" by (cases bs') auto
    ultimately show "fullMatch (programOf []) s" by simp
  qed
next
  case (Cons b bs)
  obtain nm v lit where b: "b = (nm, v, lit)" by (cases b)
  show ?case
  proof
    assume "fullMatch (programOf (b # bs)) s"
    then obtain x w where x: "x \<noteq> []" "list_all isTokenChar x" "s = x @ w"
      and w: "fullMatch (map (\<lambda>c. Once (Lit c)) lit @ programOf bs) w"
      unfolding b programOf.simps fullMatch_plus
      by (auto simp: accepts_tokenRanges [abs_def])
    from w obtain w' where w': "w = lit @ w'" "fullMatch (programOf bs) w'"
      unfolding fullMatch_literal by blast
    with Cons.IH obtain bs' where bs': "shape bs' = shape bs" "tokenValued bs'" "w' = urlOf bs'"
      by blast
    with x w' have "shape ((nm, x, lit) # bs') = shape (b # bs) \<and> tokenValued ((nm, x, lit) # bs') \<and>
        s = urlOf ((nm, x, lit) # bs')"
      by (simp add: b)
    then show "\<exists>bs'. shape bs' = shape (b # bs) \<and> tokenValued bs' \<and> s = urlOf bs'" by blast
  next
    assume "\<exists>bs'. shape bs' = shape (b # bs) \<and> tokenValued bs' \<and> s = urlOf bs'"
    then obtain bs' where bs': "shape bs' = shape (b # bs)" "tokenValued bs'" "s = urlOf bs'"
      by blast
    then obtain b' bs'' where c: "bs' = b' # bs''" by (cases bs') (auto simp: b)
    obtain nm' x lit' where b': "b' = (nm', x, lit')" by (cases b')
    from bs' c b b' have eq: "nm' = nm" "lit' = lit" "shape bs'' = shape bs"
      and x: "x \<noteq> []" "list_all isTokenChar x" and tv: "tokenValued bs''"
      and s: "s = x @ lit @ urlOf bs''"
      by simp_all
    from eq(3) tv Cons.IH have "fullMatch (programOf bs) (urlOf bs'')" by blast
    then have "fullMatch (map (\<lambda>c. Once (Lit c)) lit @ programOf bs) (lit @ urlOf bs'')"
      unfolding fullMatch_literal by blast
    with x s show "fullMatch (programOf (b # bs)) s"
      unfolding b programOf.simps fullMatch_plus
      by (auto simp: accepts_tokenRanges [abs_def])
  qed
qed

lemma escapeSlashes_escaped:
  "i < length (escapeSlashes s) \<Longrightarrow> escapeSlashes s ! i = CHR ''/'' \<Longrightarrow>
     0 < i \<and> escapeSlashes s ! (i - 1) = bslash"
proof (induction s arbitrary: i)
  case Nil
  then show ?case by (simp add: escapeSlashes_def)
next
  case (Cons c cs)
  show ?case
  proof (cases "c = CHR ''/''")
    case True
    then have eq: "escapeSlashes (c # cs) = bslash # CHR ''/'' # escapeSlashes cs"
      by (simp add: escapeSlashes_def)
    show ?thesis
    proof (cases "i < 2")
      case True
      with Cons.prems eq show ?thesis
        by (cases i) (auto simp: bslash_def)
    next
      case False
      then obtain j where j: "i = Suc (Suc j)"
        by (metis less_2_cases_iff not0_implies_Suc)
      with Cons.prems eq have "j < length (escapeSlashes cs)" "escapeSlashes cs ! j = CHR ''/''"
        by simp_all
      from Cons.IH [OF this] have "0 < j" "escapeSlashes cs ! (j - 1) = bslash" by simp_all
      with j eq show ?thesis by (cases j) simp_all
    qed
  next
    case False
    then have eq: "escapeSlashes (c # cs) = c # escapeSlashes cs"
      by (simp add: escapeSlashes_def)
    show ?thesis
    proof (cases i)
      case 0
      with Cons.prems eq False show ?thesis by simp
    next
      case (Suc j)
      with Cons.prems eq have "j < length (escapeSlashes cs)" "escapeSlashes cs ! j = CHR ''/''"
        by simp_all
      from Cons.IH [OF this] have "0 < j" "escapeSlashes cs ! (j - 1) = bslash" by simp_all
      with Suc eq show ?thesis by (cases j) simp_all
    qed
  qed
qed

lemma tokenClass_no_brace: "CHR ''{'' \<notin> set tokenClass"
  by (simp add: tokenClass_def bslash_def)

lemma replaceTokens_head:
  "replaceTokens (c # cs) \<noteq> [] \<and>
     (hd (replaceTokens (c # cs)) = c \<or> (c = CHR ''{'' \<and> hd (replaceTokens (c # cs)) = CHR ''[''))"
  by (auto simp: tokenClass_def split: list.splits)

lemma replaceTokens_run:
  "list_all isTokenChar n \<Longrightarrow> replaceTokens cs = n @ CHR ''}'' # b \<Longrightarrow>
     \<exists>b'. cs = n @ CHR ''}'' # b'"
proof (induction n arbitrary: cs b)
  case Nil
  then obtain c cs' where cs: "cs = c # cs'" by (cases cs) auto
  with Nil replaceTokens_head [of c cs'] have "c = CHR ''}''" by auto
  with cs show ?case by simp
next
  case (Cons x n)
  then have x: "isTokenChar x" and n: "list_all isTokenChar n" by simp_all
  from Cons.prems obtain c cs' where cs: "cs = c # cs'" by (cases cs) auto
  from x have xb: "x \<noteq> CHR ''{''" "x \<noteq> CHR ''[''" by (auto simp: isTokenChar_def)
  with cs Cons.prems(2) replaceTokens_head [of c cs'] have c: "c = x" by auto
  with xb cs Cons.prems(2) have "replaceTokens cs' = n @ CHR ''}'' # b" by simp
  from Cons.IH [OF n this] c cs show ?case by auto
qed

lemma append_split_absent:
  assumes "xs @ ys = a @ c # z" and "c \<notin> set xs"
  shows "\<exists>a'. a = xs @ a' \<and> ys = a' @ c # z"
  using assms
proof (induction xs arbitrary: a)
  case Nil
  then show ?case by simp
next
  case (Cons x xs)
  then obtain a1 where a: "a = x # a1" by (cases a) auto
  with Cons.prems have "xs @ ys = a1 @ c # z" "c \<notin> set xs" by simp_all
  from Cons.IH [OF this] a show ?case by auto
qed

lemma replaceTokens_no_placeholder: "\<not> hasPlaceholder (replaceTokens p)"
proof (induction p rule: replaceTokens.induct)
  case 1
  show ?case by (simp add: hasPlaceholder_def)
next
  case (2 c cs)
  show ?case
  proof
    assume "hasPlaceholder (replaceTokens (c # cs))"
    then obtain a n b where eq: "replaceTokens (c # cs) = a @ CHR ''{'' # n @ CHR ''}'' # b"
      and n: "list_all isTokenChar n"
      by (auto simp: hasPlaceholder_def)
    show False
    proof (cases "c = CHR ''{''")
      case False
      with eq have e: "c # replaceTokens cs = a @ CHR ''{'' # n @ CHR ''}'' # b" by simp
      with False obtain a1 where "a = c # a1" by (cases a) auto
      with e have "replaceTokens cs = a1 @ ''{'' @ n @ ''}'' @ b" by simp
      with n have "hasPlaceholder (replaceTokens cs)" unfolding hasPlaceholder_def by blast
      with "2.IH"(4) [OF False] show False by simp
    next
      case True
      show False
      proof (cases "dropWhile isTokenChar cs")
        case Nil
        with True eq have e: "c # replaceTokens cs = a @ CHR ''{'' # n @ CHR ''}'' # b" by simp
        show False
        proof (cases a)
          case a: Nil
          with e have "replaceTokens cs = n @ CHR ''}'' # b" by simp
          from replaceTokens_run [OF n this] obtain b' where "cs = n @ CHR ''}'' # b'" ..
          with n have "dropWhile isTokenChar cs = CHR ''}'' # b'"
            by (simp add: dropWhile_append3 list_all_iff)
          with Nil show False by simp
        next
          case (Cons y a1)
          with e have "replaceTokens cs = a1 @ ''{'' @ n @ ''}'' @ b" by simp
          with n have "hasPlaceholder (replaceTokens cs)" unfolding hasPlaceholder_def by blast
          with "2.IH"(1) [OF True Nil] show False by simp
        qed
      next
        case (Cons d rest)
        show False
        proof (cases "d = CHR ''}''")
          case d: True
          with True Cons eq have "tokenClass @ replaceTokens rest = a @ CHR ''{'' # n @ CHR ''}'' # b"
            by simp
          from append_split_absent [OF this tokenClass_no_brace]
          obtain a' where "replaceTokens rest = a' @ ''{'' @ n @ ''}'' @ b" by auto
          with n have "hasPlaceholder (replaceTokens rest)" unfolding hasPlaceholder_def by blast
          with "2.IH"(2) [OF True Cons d] show False by simp
        next
          case d: False
          with True Cons eq have e: "c # replaceTokens cs = a @ CHR ''{'' # n @ CHR ''}'' # b"
            by simp
          show False
          proof (cases a)
            case a: Nil
            with e have "replaceTokens cs = n @ CHR ''}'' # b" by simp
            from replaceTokens_run [OF n this] obtain b' where "cs = n @ CHR ''}'' # b'" ..
            with n have "dropWhile isTokenChar cs = CHR ''}'' # b'"
              by (simp add: dropWhile_append3 list_all_iff)
            with Cons d show False by simp
          next
            case a: (Cons y a1)
            with e have "replaceTokens cs = a1 @ ''{'' @ n @ ''}'' @ b" by simp
            with n have "hasPlaceholder (replaceTokens cs)" unfolding hasPlaceholder_def by blast
            with "2.IH"(3) [OF True Cons d] show False by simp
          qed
        qed
      qed
    qed
  qed
qed

lemma escapeSlashes_Cons:
  "escapeSlashes (c # cs) = (if c = CHR ''/'' then bslash # CHR ''/'' # escapeSlashes cs
                             else c # escapeSlashes cs)"
  by (simp add: escapeSlashes_def)

lemma escapeSlashes_run:
  "list_all isTokenChar n \<Longrightarrow> escapeSlashes cs = n @ CHR ''}'' # b \<Longrightarrow>
     \<exists>b'. cs = n @ CHR ''}'' # b'"
proof (induction n arbitrary: cs b)
  case Nil
  then obtain c cs' where cs: "cs = c # cs'" by (cases cs) (auto simp: escapeSlashes_def)
  with Nil have "c = CHR ''}''"
    by (auto simp: escapeSlashes_Cons bslash_def split: if_splits)
  with cs show ?case by simp
next
  case (Cons x n)
  then have x: "isTokenChar x" and n: "list_all isTokenChar n" by simp_all
  from Cons.prems obtain c cs' where cs: "cs = c # cs'" by (cases cs) (auto simp: escapeSlashes_def)
  from x have xb: "x \<noteq> bslash" "x \<noteq> CHR ''/''" by (auto simp: isTokenChar_def bslash_def)
  with cs Cons.prems(2) have c: "c = x" and "escapeSlashes cs' = n @ CHR ''}'' # b"
    by (auto simp: escapeSlashes_Cons split: if_splits)
  from Cons.IH [OF n this(2)] c cs show ?case by auto
qed

lemma escapeSlashes_placeholder: "hasPlaceholder (escapeSlashes s) \<Longrightarrow> hasPlaceholder s"
proof (induction s)
  case Nil
  then show ?case by (simp add: escapeSlashes_def hasPlaceholder_def)
next
  case (Cons c cs)
  from Cons.prems obtain a n b where eq: "escapeSlashes (c # cs) = a @ CHR ''{'' # n @ CHR ''}'' # b"
    and n: "list_all isTokenChar n"
    by (auto simp: hasPlaceholder_def)
  have tail: "hasPlaceholder (c # cs)" if "escapeSlashes cs = a1 @ CHR ''{'' # n @ CHR ''}'' # b" for a1
  proof -
    from that n have "hasPlaceholder (escapeSlashes cs)" unfolding hasPlaceholder_def by auto
    with Cons.IH obtain a2 n2 b2 where "cs = a2 @ ''{'' @ n2 @ ''}'' @ b2" "list_all isTokenChar n2"
      unfolding hasPlaceholder_def by blast
    then have "c # cs = (c # a2) @ ''{'' @ n2 @ ''}'' @ b2 \<and> list_all isTokenChar n2" by simp
    then show ?thesis unfolding hasPlaceholder_def by blast
  qed
  show ?case
  proof (cases "c = CHR ''/''")
    case True
    with eq have e: "bslash # CHR ''/'' # escapeSlashes cs = a @ CHR ''{'' # n @ CHR ''}'' # b"
      by (simp add: escapeSlashes_Cons)
    then obtain a1 where "a = bslash # a1" by (cases a) (auto simp: bslash_def)
    with e have e1: "CHR ''/'' # escapeSlashes cs = a1 @ CHR ''{'' # n @ CHR ''}'' # b" by simp
    then obtain a2 where "a1 = CHR ''/'' # a2" by (cases a1) auto
    with e1 have "escapeSlashes cs = a2 @ CHR ''{'' # n @ CHR ''}'' # b" by simp
    then show ?thesis by (rule tail)
  next
    case False
    with eq have e: "c # escapeSlashes cs = a @ CHR ''{'' # n @ CHR ''}'' # b"
      by (simp add: escapeSlashes_Cons)
    show ?thesis
    proof (cases a)
      case Nil
      with e have c: "c = CHR ''{''" and "escapeSlashes cs = n @ CHR ''}'' # b" by simp_all
      from escapeSlashes_run [OF n this(2)] obtain b' where "cs = n @ CHR ''}'' # b'" ..
      with c have "c # cs = [] @ ''{'' @ n @ ''}'' @ b'" by simp
      with n show ?thesis unfolding hasPlaceholder_def by blast
    next
      case (Cons y a1)
      with e have "escapeSlashes cs = a1 @ CHR ''{'' # n @ CHR ''}'' # b" by simp
      then show ?thesis by (rule tail)
    qed
  qed
qed

lemma source_no_placeholder: "\<not> hasPlaceholder (escapeSlashes (replaceTokens p))"
  using escapeSlashes_placeholder replaceTokens_no_placeholder by blast

lemma convert_posts_id:
  "(case convertUrlPatternToRegex fragmentEngine ''/posts/{id}'' of
      Inl e \<Rightarrow> False
    | Inr rx \<Rightarrow>
        source rx = ''^'' @ [bslash] @ ''/posts'' @ [bslash] @ ''/[a-zA-Z0-9'' @ [bslash] @ ''-_~]+$'' \<and>
        test rx ''/posts/42'' \<and> \<not> test rx ''/posts/42/extra'')"
  by code_simp

text \<open>
  C2. Whatever the pattern and the engine, the source handed to the engine is
  anchored, \<^verbatim>\<open>^\<close> first and \<^verbatim>\<open>$\<close> last, no placeholder is left in it, and every
  \<open>/\<close> in it stands after a backslash. For a pattern made
  of plain literal text and placeholders with token-character names, every
  placeholder has become the class \<^verbatim>\<open>[a-zA-Z0-9\-_~]+\<close> and the regular expression
  accepts exactly the URLs that put a non-empty run of letters, digits, hyphens,
  underscores and tildes in the place of every placeholder. The regular expression of
  \<^verbatim>\<open>/posts/{id}\<close> accepts \<^verbatim>\<open>/posts/42\<close> and rejects \<^verbatim>\<open>/posts/42/extra\<close>.
\<close>

theorem convertUrlPatternToRegex_anchored_class:
  "(\<forall>rx. convertUrlPatternToRegex E p = Inr rx \<longrightarrow>
      (\<exists>body. source rx = ''^'' @ body @ ''$'' \<and> \<not> hasPlaceholder body \<and>
         (\<forall>i < length body. body ! i = CHR ''/'' \<longrightarrow> 0 < i \<and> body ! (i - 1) = bslash))) \<and>
   (plainText pre \<and> namedPlaceholders bs \<longrightarrow>
      (\<exists>rx. convertUrlPatternToRegex fragmentEngine (pre @ patternOf bs) = Inr rx \<and>
         source rx = ''^'' @ escapeSlashes pre @ regexOf bs @ ''$'' \<and>
         (\<forall>s. test rx s \<longleftrightarrow> (\<exists>bs'. shape bs' = shape bs \<and> tokenValued bs' \<and> s = pre @ urlOf bs')))) \<and>
   (\<exists>rx. convertUrlPatternToRegex fragmentEngine ''/posts/{id}'' = Inr rx \<and>
      source rx = ''^'' @ [bslash] @ ''/posts'' @ [bslash] @ ''/[a-zA-Z0-9'' @ [bslash] @ ''-_~]+$'' \<and>
      test rx ''/posts/42'' \<and> \<not> test rx ''/posts/42/extra'')"
proof (intro conjI allI impI)
  fix rx
  assume "convertUrlPatternToRegex E p = Inr rx"
  then have "source rx = ''^'' @ escapeSlashes (replaceTokens p) @ ''$''"
    by (auto simp: convertUrlPatternToRegex_def newRegExp_def Let_def split: option.splits)
  moreover have "\<forall>i < length (escapeSlashes (replaceTokens p)).
      escapeSlashes (replaceTokens p) ! i = CHR ''/'' \<longrightarrow>
      0 < i \<and> escapeSlashes (replaceTokens p) ! (i - 1) = bslash"
    using escapeSlashes_escaped by blast
  ultimately show "\<exists>body. source rx = ''^'' @ body @ ''$'' \<and> \<not> hasPlaceholder body \<and>
         (\<forall>i < length body. body ! i = CHR ''/'' \<longrightarrow> 0 < i \<and> body ! (i - 1) = bslash)"
    using source_no_placeholder [of p] by blast
next
  assume wf: "plainText pre \<and> namedPlaceholders bs"
  let ?src = "''^'' @ escapeSlashes pre @ regexOf bs @ ''$''"
  let ?prog = "map (\<lambda>c. Once (Lit c)) pre @ programOf bs"
  let ?rx = "\<lparr>source = ?src, test = fullMatch ?prog\<rparr>"
  from wf have src: "''^'' @ escapeSlashes (replaceTokens (pre @ patternOf bs)) @ ''$'' = ?src"
    using source_of_pattern [of pre bs] by blast
  from wf have "compile ?src = Some ?prog" using compile_pattern [of pre bs] by blast
  then have conv: "convertUrlPatternToRegex fragmentEngine (pre @ patternOf bs) = Inr ?rx"
    unfolding convertUrlPatternToRegex_def Let_def src
    by (simp add: newRegExp_def fragmentEngine_def)
  have "test ?rx s \<longleftrightarrow> (\<exists>bs'. shape bs' = shape bs \<and> tokenValued bs' \<and> s = pre @ urlOf bs')" for s
    by (auto simp: fullMatch_literal fullMatch_programOf)
  with conv show "\<exists>rx. convertUrlPatternToRegex fragmentEngine (pre @ patternOf bs) = Inr rx \<and>
         source rx = ?src \<and>
         (\<forall>s. test rx s \<longleftrightarrow> (\<exists>bs'. shape bs' = shape bs \<and> tokenValued bs' \<and> s = pre @ urlOf bs'))"
    by (intro exI [of _ ?rx]) simp
next
  show "\<exists>rx. convertUrlPatternToRegex fragmentEngine ''/posts/{id}'' = Inr rx \<and>
      source rx = ''^'' @ [bslash] @ ''/posts'' @ [bslash] @ ''/[a-zA-Z0-9'' @ [bslash] @ ''-_~]+$'' \<and>
      test rx ''/posts/42'' \<and> \<not> test rx ''/posts/42/extra''"
    using convert_posts_id
    by (cases "convertUrlPatternToRegex fragmentEngine ''/posts/{id}''") auto
qed

theorem convertUrlPatternToRegex_anchored_class_witness:
  "hasPlaceholder ''/u/{user}/posts/{id}'' \<and> plainText ''/u/'' \<and>
   namedPlaceholders [(''user'', '''', ''/posts/''), (''id'', '''', '''')] \<and>
   (\<exists>rx. convertUrlPatternToRegex fragmentEngine ''/u/{user}/posts/{id}'' = Inr rx \<and>
      source rx = ''^'' @ [bslash] @ ''/u'' @ [bslash] @ ''/[a-zA-Z0-9'' @ [bslash] @ ''-_~]+''
                    @ [bslash] @ ''/posts'' @ [bslash] @ ''/[a-zA-Z0-9'' @ [bslash] @ ''-_~]+$'' \<and>
      source rx ! 2 = CHR ''/'' \<and> source rx ! 1 = bslash \<and>
      test rx ''/u/7/posts/a-B_9~'')"
proof -
  let ?bs = "[(''user'', '''', ''/posts/''), (''id'', '''', '''')]"
  have wf: "plainText ''/u/'' \<and> namedPlaceholders ?bs"
    by (simp add: plainText_def syntaxChars_def isTokenChar_def bslash_def)
  with convertUrlPatternToRegex_anchored_class [where pre = "''/u/''" and bs = ?bs]
  obtain rx where conv: "convertUrlPatternToRegex fragmentEngine (''/u/'' @ patternOf ?bs) = Inr rx"
    and src: "source rx = ''^'' @ escapeSlashes ''/u/'' @ regexOf ?bs @ ''$''"
    and sem: "\<forall>s. test rx s \<longleftrightarrow> (\<exists>bs'. shape bs' = shape ?bs \<and> tokenValued bs' \<and> s = ''/u/'' @ urlOf bs')"
    by blast
  let ?inst = "[(''user'', ''7'', ''/posts/''), (''id'', ''a-B_9~'', '''')]"
  have "shape ?inst = shape ?bs \<and> tokenValued ?inst \<and> ''/u/7/posts/a-B_9~'' = ''/u/'' @ urlOf ?inst"
    by (simp add: isTokenChar_def)
  with sem have t: "test rx ''/u/7/posts/a-B_9~''" by blast
  from src have s: "source rx = ''^'' @ [bslash] @ ''/u'' @ [bslash] @ ''/[a-zA-Z0-9'' @ [bslash] @ ''-_~]+''
                    @ [bslash] @ ''/posts'' @ [bslash] @ ''/[a-zA-Z0-9'' @ [bslash] @ ''-_~]+$''"
    by (simp add: escapeSlashes_def tokenClass_def)
  from s have at: "source rx ! 2 = CHR ''/'' \<and> source rx ! 1 = bslash" by simp
  have "''/u/{user}/posts/{id}'' = ''/u/'' @ ''{'' @ ''user'' @ ''}'' @ ''/posts/{id}'' \<and>
      list_all isTokenChar ''user''"
    by (simp add: isTokenChar_def)
  then have ph: "hasPlaceholder ''/u/{user}/posts/{id}''"
    unfolding hasPlaceholder_def by blast
  from conv s t at wf ph show ?thesis by simp
qed

section \<open>Route lookup and its caches\<close>

lemma getRoutes_routeInfoCache:
  "getRoutes E cfgs app st = (res, st1) \<Longrightarrow> routeInfoCache st1 = routeInfoCache st"
  by (auto simp: getRoutes_def split: option.splits sum.splits)

lemma getRouteInfo_hit:
  assumes "routeInfoCache st (app @ ''||'' @ u) = Some ri"
  shows "getRouteInfo E cfgs app u q l st =
           Some (Inr (app @ ''||'' @ u),
                 st\<lparr>routeInfoCache := (routeInfoCache st)(app @ ''||'' @ u \<mapsto> ri\<lparr>query := q\<rparr>)\<rparr>)"
  using assms by (simp add: getRouteInfo_def Let_def)

lemma getRouteInfo_no_match:
  assumes "routeInfoCache st (app @ ''||'' @ u) = None"
    and "getRoutes E cfgs app st = (Inr rs, st1)"
    and "find (\<lambda>r. test (urlRegex r) (toLowerCase u)) rs = None"
  shows "getRouteInfo E cfgs app u q l st = Some (Inl (notFound app u), st1)"
  using assms by (simp add: getRouteInfo_def Let_def)

lemma getRouteInfo_match:
  assumes "routeInfoCache st (app @ ''||'' @ u) = None"
    and "getRoutes E cfgs app st = (Inr rs, st1)"
    and "find (\<lambda>r. test (urlRegex r) (toLowerCase u)) rs = Some r"
  shows "\<exists>tks. getTokenValuesFromUrl (urlPattern r) u = Some tks \<and>
           getRouteInfo E cfgs app u q l st =
             Some (Inr (app @ ''||'' @ u),
                   st1\<lparr>routeInfoCache := (routeInfoCache st1)
                         (app @ ''||'' @ u \<mapsto> makeRouteInfo app l u q tks r)\<rparr>)"
proof -
  obtain tks where "getTokenValuesFromUrl (urlPattern r) u = Some tks"
    unfolding getTokenValuesFromUrl_def using tokenLoop_total by blast
  with assms show ?thesis by (simp add: getRouteInfo_def Let_def)
qed

lemma getRouteInfo_routes_fail:
  assumes "routeInfoCache st (app @ ''||'' @ u) = None"
    and "getRoutes E cfgs app st = (Inl e, st1)"
  shows "getRouteInfo E cfgs app u q l st = Some (Inl e, st1)"
  using assms by (simp add: getRouteInfo_def Let_def)

lemma getRouteInfo_frame:
  assumes "getRouteInfo E cfgs app u q l st = Some (res, st')"
    and "routeInfoCache st k = Some ri"
  shows "\<exists>q'. routeInfoCache st' k = Some (ri\<lparr>query := q'\<rparr>)"
proof (cases "routeInfoCache st (app @ ''||'' @ u)")
  case (Some cached)
  from assms(1) getRouteInfo_hit [OF Some, of E cfgs q l]
  have st': "st' = st\<lparr>routeInfoCache := (routeInfoCache st)(app @ ''||'' @ u \<mapsto> cached\<lparr>query := q\<rparr>)\<rparr>"
    by simp
  show ?thesis
  proof (cases "k = app @ ''||'' @ u")
    case True
    with Some assms(2) st' have "routeInfoCache st' k = Some (ri\<lparr>query := q\<rparr>)" by simp
    then show ?thesis by blast
  next
    case False
    with assms(2) st' have "routeInfoCache st' k = Some (ri\<lparr>query := query ri\<rparr>)" by simp
    then show ?thesis by blast
  qed
next
  case None
  with assms(2) have ne: "k \<noteq> app @ ''||'' @ u" by auto
  obtain rr st1 where gr: "getRoutes E cfgs app st = (rr, st1)" by (cases "getRoutes E cfgs app st")
  then have same: "routeInfoCache st1 = routeInfoCache st" by (rule getRoutes_routeInfoCache)
  have "routeInfoCache st' k = routeInfoCache st k"
  proof (cases rr)
    case (Inl e)
    with None gr assms(1) getRouteInfo_routes_fail [of st app u E cfgs e st1 q l] same
    show ?thesis by simp
  next
    case (Inr rs)
    show ?thesis
    proof (cases "find (\<lambda>r. test (urlRegex r) (toLowerCase u)) rs")
      case nf: None
      with None gr Inr assms(1) getRouteInfo_no_match [of st app u E cfgs rs st1 q l] same
      show ?thesis by simp
    next
      case (Some r)
      with None gr Inr assms(1) getRouteInfo_match [of st app u E cfgs rs st1 r q l] same ne
      show ?thesis by auto
    qed
  qed
  with assms(2) have "routeInfoCache st' k = Some (ri\<lparr>query := query ri\<rparr>)" by simp
  then show ?thesis by blast
qed

lemma getRouteInfo_success:
  assumes "getRouteInfo E cfgs app u q l st = Some (Inr ref, st')"
  shows "ref = app @ ''||'' @ u \<and> (\<exists>ri. routeInfoCache st' ref = Some ri \<and> query ri = q)"
proof (cases "routeInfoCache st (app @ ''||'' @ u)")
  case (Some cached)
  with assms getRouteInfo_hit [OF Some, of E cfgs q l] show ?thesis by auto
next
  case None
  obtain rr st1 where gr: "getRoutes E cfgs app st = (rr, st1)" by (cases "getRoutes E cfgs app st")
  show ?thesis
  proof (cases rr)
    case (Inl e)
    with None gr assms getRouteInfo_routes_fail [of st app u E cfgs e st1 q l]
    show ?thesis by simp
  next
    case (Inr rs)
    show ?thesis
    proof (cases "find (\<lambda>r. test (urlRegex r) (toLowerCase u)) rs")
      case nf: None
      with None gr Inr assms getRouteInfo_no_match [of st app u E cfgs rs st1 q l]
      show ?thesis by simp
    next
      case (Some r)
      with None gr Inr assms getRouteInfo_match [of st app u E cfgs rs st1 r q l]
      show ?thesis by (auto simp: makeRouteInfo_def)
    qed
  qed
qed

lemma convert_posts: "convertUrlPatternToRegex fragmentEngine ''/posts/{id}'' = Inr postsRegex"
proof -
  have wf: "plainText ''/posts/''" "namedPlaceholders [(''id'', '''', '''')]"
    by (simp_all add: plainText_def syntaxChars_def isTokenChar_def bslash_def)
  have "''^'' @ escapeSlashes (replaceTokens (''/posts/'' @ patternOf [(''id'', '''', '''')])) @ ''$'' =
        ''^'' @ escapeSlashes ''/posts/'' @ regexOf [(''id'', '''', '''')] @ ''$''"
    using wf by (rule source_of_pattern)
  moreover have "compile (''^'' @ escapeSlashes ''/posts/'' @ regexOf [(''id'', '''', '''')] @ ''$'') =
      Some (map (\<lambda>c. Once (Lit c)) ''/posts/'' @ programOf [(''id'', '''', '''')])"
    using wf by (rule compile_pattern)
  ultimately show ?thesis
    by (simp add: convertUrlPatternToRegex_def newRegExp_def fragmentEngine_def postsRegex_def
        escapeSlashes_def)
qed

lemma getRoutes_blog:
  "getRoutes fragmentEngine sampleConfigs ''blog'' initialState =
     (Inr [postRoute], initialState\<lparr>appRouteCache := [''blog'' \<mapsto> [postRoute]]\<rparr>)"
  by (simp add: getRoutes_def initialState_def sampleConfigs_def blogConfig_def postDecl_def
      convert_posts postRoute_def)

lemma postsRegex_test:
  "test postsRegex ''/posts/42''" "test postsRegex ''/posts/abc''" "\<not> test postsRegex ''/about''"
  "\<not> test postsRegex ''/Posts/AbC''"
  by (simp_all add: postsRegex_def tokenRanges_def)

lemma afterCalls_frame:
  "afterCalls E cfgs calls st = Some st' \<Longrightarrow> routeInfoCache st k = Some ri \<Longrightarrow>
     \<exists>q'. routeInfoCache st' k = Some (ri\<lparr>query := q'\<rparr>)"
proof (induction calls arbitrary: st ri)
  case Nil
  then have "routeInfoCache st' k = Some (ri\<lparr>query := query ri\<rparr>)" by simp
  then show ?case by blast
next
  case (Cons c calls)
  obtain app u q l where c: "c = (app, u, q, l)" by (cases c)
  with Cons.prems(1) obtain res st1 where
    one: "getRouteInfo E cfgs app u q l st = Some (res, st1)"
    and rest: "afterCalls E cfgs calls st1 = Some st'"
    by (auto split: option.splits)
  from getRouteInfo_frame [OF one Cons.prems(2)] obtain q1
    where "routeInfoCache st1 k = Some (ri\<lparr>query := q1\<rparr>)" ..
  from Cons.IH [OF rest this] show ?case by auto
qed

text \<open>
  C3. Two calls of \<^verbatim>\<open>getRouteInfo\<close> for the same application and URL, with any
  calls in between: when the first returns, the second returns the same cached object
  (the same reference), whose \<open>query\<close> is now the second call's and whose other
  fields, \<open>tokens\<close> and \<open>urlPattern\<close> among them, are what they were when the
  first call returned; the second call changes no other cache entry and no compiled
  route. And over any call at all, an entry that was cached is still cached afterwards
  and differs from what it was in \<open>query\<close> at most.
\<close>

theorem getRouteInfo_only_query_mutates:
  "(getRouteInfo E cfgs app u q1 l1 st = Some (Inr ref, st1) \<and>
    afterCalls E cfgs calls st1 = Some st1' \<longrightarrow>
      (\<exists>ri1. routeInfoCache st1 ref = Some ri1 \<and> query ri1 = q1 \<and>
         (\<exists>st2 ri2. getRouteInfo E cfgs app u q2 l2 st1' = Some (Inr ref, st2) \<and>
            routeInfoCache st2 ref = Some ri2 \<and> query ri2 = q2 \<and>
            ri2 = ri1\<lparr>query := q2\<rparr> \<and> tokens ri2 = tokens ri1 \<and>
            urlPattern ri2 = urlPattern ri1 \<and>
            (\<forall>k. k \<noteq> ref \<longrightarrow> routeInfoCache st2 k = routeInfoCache st1' k) \<and>
            appRouteCache st2 = appRouteCache st1'))) \<and>
   (getRouteInfo E cfgs app' u' q l st = Some (res, st') \<and> routeInfoCache st k = Some ri \<longrightarrow>
      (\<exists>q'. routeInfoCache st' k = Some (ri\<lparr>query := q'\<rparr>)))"
proof (intro conjI impI)
  assume a: "getRouteInfo E cfgs app u q1 l1 st = Some (Inr ref, st1) \<and>
    afterCalls E cfgs calls st1 = Some st1'"
  then have first: "getRouteInfo E cfgs app u q1 l1 st = Some (Inr ref, st1)"
    and between: "afterCalls E cfgs calls st1 = Some st1'"
    by simp_all
  from getRouteInfo_success [OF first] obtain ri1
    where ref: "ref = app @ ''||'' @ u" and ri1: "routeInfoCache st1 ref = Some ri1"
      and q1: "query ri1 = q1"
    by blast
  from afterCalls_frame [OF between ri1] obtain q'
    where kept: "routeInfoCache st1' ref = Some (ri1\<lparr>query := q'\<rparr>)" ..
  let ?st2 = "st1'\<lparr>routeInfoCache := (routeInfoCache st1')(ref \<mapsto> ri1\<lparr>query := q2\<rparr>)\<rparr>"
  from kept ref have second: "getRouteInfo E cfgs app u q2 l2 st1' = Some (Inr ref, ?st2)"
    using getRouteInfo_hit [of st1' app u "ri1\<lparr>query := q'\<rparr>" E cfgs q2 l2] by simp
  have "routeInfoCache ?st2 ref = Some (ri1\<lparr>query := q2\<rparr>) \<and> query (ri1\<lparr>query := q2\<rparr>) = q2 \<and>
      tokens (ri1\<lparr>query := q2\<rparr>) = tokens ri1 \<and> urlPattern (ri1\<lparr>query := q2\<rparr>) = urlPattern ri1 \<and>
      (\<forall>k. k \<noteq> ref \<longrightarrow> routeInfoCache ?st2 k = routeInfoCache st1' k) \<and>
      appRouteCache ?st2 = appRouteCache st1'"
    by simp
  with ri1 q1 second
  show "\<exists>ri1. routeInfoCache st1 ref = Some ri1 \<and> query ri1 = q1 \<and>
         (\<exists>st2 ri2. getRouteInfo E cfgs app u q2 l2 st1' = Some (Inr ref, st2) \<and>
            routeInfoCache st2 ref = Some ri2 \<and> query ri2 = q2 \<and>
            ri2 = ri1\<lparr>query := q2\<rparr> \<and> tokens ri2 = tokens ri1 \<and>
            urlPattern ri2 = urlPattern ri1 \<and>
            (\<forall>k. k \<noteq> ref \<longrightarrow> routeInfoCache st2 k = routeInfoCache st1' k) \<and>
            appRouteCache st2 = appRouteCache st1')"
    by blast
next
  assume "getRouteInfo E cfgs app' u' q l st = Some (res, st') \<and> routeInfoCache st k = Some ri"
  then show "\<exists>q'. routeInfoCache st' k = Some (ri\<lparr>query := q'\<rparr>)"
    using getRouteInfo_frame by blast
qed

lemma getRouteInfo_blog_first:
  "getRouteInfo fragmentEngine sampleConfigs ''blog'' ''/posts/42'' q ''en'' initialState =
     Some (Inr ''blog||/posts/42'',
           initialState
             \<lparr> appRouteCache := [''blog'' \<mapsto> [postRoute]],
               routeInfoCache := [''blog||/posts/42'' \<mapsto>
                 makeRouteInfo ''blog'' ''en'' ''/posts/42'' q [(''id'', ''42'')] postRoute] \<rparr>)"
proof -
  have miss: "routeInfoCache initialState (''blog'' @ ''||'' @ ''/posts/42'') = None"
    by (simp add: initialState_def)
  have found: "find (\<lambda>r. test (urlRegex r) (toLowerCase ''/posts/42'')) [postRoute] = Some postRoute"
    using postsRegex_test(1)
    by (simp add: postRoute_def makeRoute_def toLowerCase_def toLowerChar_def)
  have tks: "getTokenValuesFromUrl (urlPattern postRoute) ''/posts/42'' = Some [(''id'', ''42'')]"
    unfolding postRoute_def makeRoute_def by simp code_simp
  from getRouteInfo_match [OF miss getRoutes_blog found, of q "''en''"] tks
  show ?thesis by (simp add: initialState_def)
qed

lemma getRouteInfo_blog_about:
  assumes "appRouteCache st ''blog'' = Some [postRoute]" and "routeInfoCache st ''blog||/about'' = None"
  shows "getRouteInfo fragmentEngine sampleConfigs ''blog'' ''/about'' q l st =
           Some (Inl (notFound ''blog'' ''/about''), st)"
proof -
  have routes: "getRoutes fragmentEngine sampleConfigs ''blog'' st = (Inr [postRoute], st)"
    using assms(1) by (simp add: getRoutes_def)
  have nf: "find (\<lambda>r. test (urlRegex r) (toLowerCase ''/about'')) [postRoute] = None"
    using postsRegex_test(3)
    by (simp add: postRoute_def makeRoute_def toLowerCase_def toLowerChar_def)
  from assms(2) have miss: "routeInfoCache st (''blog'' @ ''||'' @ ''/about'') = None" by simp
  from getRouteInfo_no_match [OF miss routes nf] show ?thesis .
qed

theorem getRouteInfo_only_query_mutates_witness:
  "\<exists>st1 ri1 st1' st2 ri2.
     getRouteInfo fragmentEngine sampleConfigs ''blog'' ''/posts/42'' (JObj [(''page'', JStr ''1'')])
       ''en'' initialState = Some (Inr ''blog||/posts/42'', st1) \<and>
     routeInfoCache st1 ''blog||/posts/42'' = Some ri1 \<and>
     query ri1 = JObj [(''page'', JStr ''1'')] \<and> tokens ri1 = [(''id'', ''42'')] \<and>
     afterCalls fragmentEngine sampleConfigs [(''blog'', ''/about'', JObj [], ''en'')] st1 = Some st1' \<and>
     getRouteInfo fragmentEngine sampleConfigs ''blog'' ''/posts/42'' (JObj [(''page'', JStr ''2'')])
       ''fr'' st1' = Some (Inr ''blog||/posts/42'', st2) \<and>
     routeInfoCache st2 ''blog||/posts/42'' = Some ri2 \<and>
     query ri2 = JObj [(''page'', JStr ''2'')] \<and> tokens ri2 = [(''id'', ''42'')] \<and>
     urlPattern ri2 = ''/posts/{id}'' \<and> lang ri2 = ''en''"
proof -
  let ?q1 = "JObj [(''page'', JStr ''1'')]"
  let ?q2 = "JObj [(''page'', JStr ''2'')]"
  let ?ri1 = "makeRouteInfo ''blog'' ''en'' ''/posts/42'' ?q1 [(''id'', ''42'')] postRoute"
  let ?st1 = "initialState
             \<lparr> appRouteCache := [''blog'' \<mapsto> [postRoute]],
               routeInfoCache := [''blog||/posts/42'' \<mapsto> ?ri1] \<rparr>"
  let ?calls = "[(''blog'', ''/about'', JObj [], ''en'')]"
  have first: "getRouteInfo fragmentEngine sampleConfigs ''blog'' ''/posts/42'' ?q1 ''en'' initialState =
      Some (Inr ''blog||/posts/42'', ?st1)"
    by (rule getRouteInfo_blog_first)
  have c1: "routeInfoCache ?st1 ''blog||/posts/42'' = Some ?ri1" by simp
  have between: "afterCalls fragmentEngine sampleConfigs ?calls ?st1 = Some ?st1"
    using getRouteInfo_blog_about [of ?st1 "JObj []" "''en''"] by simp
  from getRouteInfo_only_query_mutates
         [of fragmentEngine sampleConfigs "''blog''" "''/posts/42''" ?q1 "''en''" initialState
            "''blog||/posts/42''" ?st1 ?calls ?st1 ?q2 "''fr''", THEN conjunct1] first between
  have "\<exists>ri1. routeInfoCache ?st1 ''blog||/posts/42'' = Some ri1 \<and> query ri1 = ?q1 \<and>
         (\<exists>st2 ri2. getRouteInfo fragmentEngine sampleConfigs ''blog'' ''/posts/42'' ?q2 ''fr'' ?st1 =
              Some (Inr ''blog||/posts/42'', st2) \<and>
            routeInfoCache st2 ''blog||/posts/42'' = Some ri2 \<and> query ri2 = ?q2 \<and>
            ri2 = ri1\<lparr>query := ?q2\<rparr> \<and> tokens ri2 = tokens ri1 \<and>
            urlPattern ri2 = urlPattern ri1 \<and>
            (\<forall>k. k \<noteq> ''blog||/posts/42'' \<longrightarrow> routeInfoCache st2 k = routeInfoCache ?st1 k) \<and>
            appRouteCache st2 = appRouteCache ?st1)"
    by blast
  then obtain ri1 st2 ri2 where r1: "routeInfoCache ?st1 ''blog||/posts/42'' = Some ri1"
    and second:
      "getRouteInfo fragmentEngine sampleConfigs ''blog'' ''/posts/42'' ?q2 ''fr'' ?st1 =
         Some (Inr ''blog||/posts/42'', st2)"
    and c2: "routeInfoCache st2 ''blog||/posts/42'' = Some ri2" "query ri2 = ?q2"
      "ri2 = ri1\<lparr>query := ?q2\<rparr>"
    by blast
  from r1 c1 have "ri1 = ?ri1" by simp
  with c2(3) have ri2: "ri2 = ?ri1\<lparr>query := ?q2\<rparr>" by simp
  from ri2 have fields: "tokens ri2 = [(''id'', ''42'')]" "urlPattern ri2 = ''/posts/{id}''"
      "lang ri2 = ''en''"
    by (simp_all add: makeRouteInfo_def postRoute_def makeRoute_def)
  have f1: "query ?ri1 = ?q1" "tokens ?ri1 = [(''id'', ''42'')]"
    by (simp_all add: makeRouteInfo_def)
  from first c1 f1 between second c2(1,2) fields show ?thesis by blast
qed

lemma substring_sublist: "sublist (substring s a b) s"
proof -
  have "sublist (take n (drop m s)) s" for n m
    by (meson sublist_drop sublist_order.order_trans sublist_take)
  then show ?thesis by (simp add: substring_def Let_def)
qed

lemma set_setProp: "set (setProp tv k v) \<subseteq> insert (k, v) (set tv)"
proof -
  have "set (AList.update k v tv) \<subseteq> insert (k, v) (set tv)"
    by (induction tv) auto
  then show ?thesis by (auto simp: setProp_def)
qed

lemma loopBody_break: "loopBody p u tv = Inl fin \<Longrightarrow> fin = tv"
  by (auto simp: loopBody_def Let_def split: if_splits)

lemma loopBody_sublist:
  assumes "loopBody p u tv = Inr (p', u', tv')"
  shows "sublist u' u \<and> (\<exists>k v. tv' = setProp tv k v \<and> sublist v u)"
proof -
  define u1 where "u1 = substringFrom u (indexOf p ''{'')"
  have u1: "sublist u1 u"
    by (simp add: u1_def substringFrom_def substring_sublist)
  from assms obtain k i where tv': "tv' = setProp tv k (substring u1 0 i)"
    and u': "u' = substringFrom u1 i"
    by (auto simp: loopBody_def Let_def u1_def split: if_splits)
  have "sublist (substring u1 0 i) u" "sublist u' u"
    using u1 substring_sublist [of u1] u'
    by (auto simp: substringFrom_def intro: sublist_order.order_trans)
  with tv' show ?thesis by blast
qed

lemma tokenLoop_sublist:
  assumes "tokenLoop p u tv = Some r" and "sublist u w" and "\<forall>(k, v) \<in> set tv. sublist v w"
  shows "\<forall>(k, v) \<in> set r. sublist v w"
  using assms
proof (induction p arbitrary: u tv rule: length_induct)
  case (1 p)
  show ?case
  proof (cases "loopBody p u tv")
    case (Inl fin)
    with "1.prems"(1) have "r = fin" by (subst (asm) tokenLoop.simps) simp
    with Inl have "r = tv" by (simp add: loopBody_break)
    with "1.prems"(3) show ?thesis by simp
  next
    case (Inr nxt)
    obtain p' u' tv' where nxt: "nxt = (p', u', tv')" by (cases nxt)
    from Inr nxt have shorter: "length p' < length p" by (simp add: loopBody_shrinks)
    from Inr nxt loopBody_sublist obtain k v where
      su: "sublist u' u" and tv': "tv' = setProp tv k v" and sv: "sublist v u"
      by blast
    from su "1.prems"(2) have su': "sublist u' w" by (rule sublist_order.order_trans)
    from sv "1.prems"(2) have "sublist v w" by (rule sublist_order.order_trans)
    with "1.prems"(3) tv' set_setProp [of tv k v] have inv: "\<forall>(k, v) \<in> set tv'. sublist v w"
      by auto
    from Inr nxt "1.prems"(1) have "tokenLoop p' u' tv' = Some r"
      by (subst (asm) tokenLoop.simps) simp
    with "1.IH" shorter su' inv show ?thesis by blast
  qed
qed

lemma getTokenValuesFromUrl_sublist:
  "getTokenValuesFromUrl p u = Some tks \<Longrightarrow> \<forall>(k, v) \<in> set tks. sublist v u"
  unfolding getTokenValuesFromUrl_def using tokenLoop_sublist [of p u "[]" tks u] by simp

text \<open>
  C8. \<^verbatim>\<open>getRouteInfo\<close> throws exactly when the key \<^verbatim>\<open>appName||url\<close> holds no
  cached entry and either the routes of the application cannot be had or none of them
  accepts the lowercased URL; but only in the second case is the error the one with
  the message \<^verbatim>\<open>404: <appName> <url> is not a valid request\<close>. On a miss line 144
  asks \<^verbatim>\<open>getRoutes\<close> for the routes, and for an application without a
  configuration \<^verbatim>\<open>getRoutes\<close> reads \<^verbatim>\<open>routes\<close> of \<^verbatim>\<open>undefined\<close> (line 104): the
  \<^verbatim>\<open>TypeError\<close> leaves \<^verbatim>\<open>getRouteInfo\<close> as it is, as does the
  \<^verbatim>\<open>SyntaxError\<close> of a pattern that \<^verbatim>\<open>new RegExp\<close> rejects. Line 145 tests
  \<^verbatim>\<open>if (routes)\<close> and falls through to the 404 when there are none, but
  \<^verbatim>\<open>getRoutes\<close> never returns without a list. So a request for an application that
  is not configured, \<^verbatim>\<open>getRouteInfo('shop', '/cart', {}, 'en')\<close> with only
  \<open>blog\<close> configured, throws a \<^verbatim>\<open>TypeError\<close> and not the 404 error.
\<close>

theorem getRouteInfo_unknown_app_not_404:
  "(routeInfoCache st (app @ ''||'' @ u) = None \<and> appRouteCache st app = None \<and> cfgs app = None \<longrightarrow>
      getRouteInfo E cfgs app u q l st = Some (Inl TypeError, st) \<and>
      TypeError \<noteq> Error (''404: '' @ app @ '' '' @ u @ '' is not a valid request'')) \<and>
   (\<exists>res st'. getRouteInfo E cfgs app u q l st = Some (res, st') \<and>
      (isl res \<longleftrightarrow>
         routeInfoCache st (app @ ''||'' @ u) = None \<and>
         (case fst (getRoutes E cfgs app st) of
            Inl e \<Rightarrow> True
          | Inr rs \<Rightarrow> \<forall>r \<in> set rs. \<not> test (urlRegex r) (toLowerCase u))) \<and>
      (isl res \<longrightarrow>
         res = (case fst (getRoutes E cfgs app st) of
                  Inl e \<Rightarrow> Inl e
                | Inr rs \<Rightarrow>
                    Inl (Error (''404: '' @ app @ '' '' @ u @ '' is not a valid request''))))) \<and>
   getRouteInfo fragmentEngine sampleConfigs ''shop'' ''/cart'' (JObj []) ''en'' initialState =
     Some (Inl TypeError, initialState)"
proof (intro conjI impI)
  assume "routeInfoCache st (app @ ''||'' @ u) = None \<and> appRouteCache st app = None \<and>
      cfgs app = None"
  then show "getRouteInfo E cfgs app u q l st = Some (Inl TypeError, st)"
    by (simp add: getRouteInfo_def getRoutes_def Let_def)
next
  show "TypeError \<noteq> Error (''404: '' @ app @ '' '' @ u @ '' is not a valid request'')"
    by simp
next
  show "getRouteInfo fragmentEngine sampleConfigs ''shop'' ''/cart'' (JObj []) ''en'' initialState =
      Some (Inl TypeError, initialState)"
    by (simp add: getRouteInfo_def getRoutes_def Let_def initialState_def sampleConfigs_def)
next
  let ?P = "\<lambda>res. (isl res \<longleftrightarrow>
         routeInfoCache st (app @ ''||'' @ u) = None \<and>
         (case fst (getRoutes E cfgs app st) of
            Inl e \<Rightarrow> True
          | Inr rs \<Rightarrow> \<forall>r \<in> set rs. \<not> test (urlRegex r) (toLowerCase u))) \<and>
      (isl res \<longrightarrow>
         res = (case fst (getRoutes E cfgs app st) of
                  Inl e \<Rightarrow> Inl e
                | Inr rs \<Rightarrow>
                    Inl (Error (''404: '' @ app @ '' '' @ u @ '' is not a valid request''))))"
  show "\<exists>res st'. getRouteInfo E cfgs app u q l st = Some (res, st') \<and> ?P res"
  proof (cases "routeInfoCache st (app @ ''||'' @ u)")
    case (Some cached)
    from getRouteInfo_hit [OF Some, of E cfgs q l] Some show ?thesis by simp
  next
    case None
    obtain rres st1 where routes: "getRoutes E cfgs app st = (rres, st1)"
      by (cases "getRoutes E cfgs app st")
    show ?thesis
    proof (cases rres)
      case (Inl e)
      with getRouteInfo_routes_fail [OF None, of E cfgs e st1 q l] routes None show ?thesis
        by simp
    next
      case (Inr rs)
      show ?thesis
      proof (cases "find (\<lambda>r. test (urlRegex r) (toLowerCase u)) rs")
        case nf: None
        then have "\<forall>r \<in> set rs. \<not> test (urlRegex r) (toLowerCase u)"
          by (simp add: find_None_iff)
        with getRouteInfo_no_match [OF None _ nf, of E cfgs st1 q l] routes Inr None
        show ?thesis by (simp add: notFound_def)
      next
        case (Some r)
        then have "\<exists>r \<in> set rs. test (urlRegex r) (toLowerCase u)"
          by (metis find_Some_iff nth_mem)
        with getRouteInfo_match [OF None _ Some, of E cfgs st1 q l] routes Inr show ?thesis
          by auto
      qed
    qed
  qed
qed

theorem getRouteInfo_unknown_app_not_404_witness:
  "routeInfoCache initialState ''shop||/cart'' = None \<and> appRouteCache initialState ''shop'' = None \<and>
   sampleConfigs ''shop'' = None \<and>
   getRouteInfo fragmentEngine sampleConfigs ''shop'' ''/cart'' (JObj []) ''en'' initialState =
     Some (Inl TypeError, initialState) \<and>
   fst (getRoutes fragmentEngine sampleConfigs ''blog'' initialState) = Inr [postRoute] \<and>
   routeInfoCache initialState ''blog||/About'' = None \<and>
   \<not> test (urlRegex postRoute) (toLowerCase ''/About'') \<and>
   (\<exists>st'. getRouteInfo fragmentEngine sampleConfigs ''blog'' ''/About'' (JObj []) ''en'' initialState =
      Some (Inl (Error ''404: blog /About is not a valid request''), st'))"
proof -
  have unknown: "routeInfoCache initialState (''shop'' @ ''||'' @ ''/cart'') = None \<and>
      appRouteCache initialState ''shop'' = None \<and> sampleConfigs ''shop'' = None"
    by (simp add: initialState_def sampleConfigs_def)
  from getRouteInfo_unknown_app_not_404
         [where st = initialState and app = "''shop''" and u = "''/cart''" and cfgs = sampleConfigs
            and E = fragmentEngine and q = "JObj []" and l = "''en''"] unknown
  have shop: "getRouteInfo fragmentEngine sampleConfigs ''shop'' ''/cart'' (JObj []) ''en'' initialState =
      Some (Inl TypeError, initialState)"
    by blast
  have routes: "fst (getRoutes fragmentEngine sampleConfigs ''blog'' initialState) = Inr [postRoute]"
    by (simp add: getRoutes_blog)
  have miss: "routeInfoCache initialState (''blog'' @ ''||'' @ ''/About'') = None"
    by (simp add: initialState_def)
  have reject: "\<not> test (urlRegex postRoute) (toLowerCase ''/About'')"
    using postsRegex_test(3)
    by (simp add: postRoute_def makeRoute_def toLowerCase_def toLowerChar_def)
  from getRouteInfo_unknown_app_not_404
         [where st = initialState and app = "''blog''" and u = "''/About''" and cfgs = sampleConfigs
            and E = fragmentEngine and q = "JObj []" and l = "''en''"]
  obtain res st' where
    call: "getRouteInfo fragmentEngine sampleConfigs ''blog'' ''/About'' (JObj []) ''en'' initialState =
             Some (res, st')"
    and iff: "isl res \<longleftrightarrow>
           routeInfoCache initialState (''blog'' @ ''||'' @ ''/About'') = None \<and>
           (case fst (getRoutes fragmentEngine sampleConfigs ''blog'' initialState) of
              Inl e \<Rightarrow> True
            | Inr rs \<Rightarrow> \<forall>r \<in> set rs. \<not> test (urlRegex r) (toLowerCase ''/About''))"
    and msg: "isl res \<longrightarrow>
           res = (case fst (getRoutes fragmentEngine sampleConfigs ''blog'' initialState) of
                    Inl e \<Rightarrow> Inl e
                  | Inr rs \<Rightarrow>
                      Inl (Error (''404: '' @ ''blog'' @ '' '' @ ''/About'' @ '' is not a valid request'')))"
    by blast
  from iff miss reject routes have "isl res" by simp
  with msg routes have "res = Inl (Error ''404: blog /About is not a valid request'')" by simp
  with call unknown shop routes miss reject show ?thesis by auto
qed

text \<open>
  C10. On a cache miss the route is chosen by testing the lowercased copy of the
  request URL, and the entry that is stored and returned carries the request URL as it
  came: its \<open>url\<close> is the request URL, its tokens are extracted from the request URL,
  so every token value is a piece of the request URL, letter for letter. Two request
  URLs with the same lowercase form choose the same route, each keeping its own
  spelling in \<open>url\<close>.
\<close>

theorem getRouteInfo_original_casing:
  "routeInfoCache st (app @ ''||'' @ u) = None \<and> getRoutes E cfgs app st = (Inr rs, st1) \<and>
   find (\<lambda>r. test (urlRegex r) (toLowerCase u)) rs = Some r \<longrightarrow>
     (\<exists>tks st2 ri. getRouteInfo E cfgs app u q l st = Some (Inr (app @ ''||'' @ u), st2) \<and>
        routeInfoCache st2 (app @ ''||'' @ u) = Some ri \<and>
        url ri = u \<and> urlPattern ri = urlPattern r \<and>
        getTokenValuesFromUrl (urlPattern r) u = Some tks \<and> tokens ri = tks \<and>
        (\<forall>(k, v) \<in> set tks. sublist v u)) \<and>
     (\<forall>u'. toLowerCase u' = toLowerCase u \<and> routeInfoCache st (app @ ''||'' @ u') = None \<longrightarrow>
        (\<exists>st2' ri'. getRouteInfo E cfgs app u' q l st = Some (Inr (app @ ''||'' @ u'), st2') \<and>
           routeInfoCache st2' (app @ ''||'' @ u') = Some ri' \<and>
           url ri' = u' \<and> urlPattern ri' = urlPattern r))"
proof (intro impI conjI allI)
  assume a: "routeInfoCache st (app @ ''||'' @ u) = None \<and> getRoutes E cfgs app st = (Inr rs, st1) \<and>
    find (\<lambda>r. test (urlRegex r) (toLowerCase u)) rs = Some r"
  then have miss: "routeInfoCache st (app @ ''||'' @ u) = None"
    and routes: "getRoutes E cfgs app st = (Inr rs, st1)"
    and found: "find (\<lambda>r. test (urlRegex r) (toLowerCase u)) rs = Some r"
    by simp_all
  from getRouteInfo_match [OF miss routes found, of q l] obtain tks where
    tks: "getTokenValuesFromUrl (urlPattern r) u = Some tks"
    and call: "getRouteInfo E cfgs app u q l st =
             Some (Inr (app @ ''||'' @ u),
                   st1\<lparr>routeInfoCache := (routeInfoCache st1)
                         (app @ ''||'' @ u \<mapsto> makeRouteInfo app l u q tks r)\<rparr>)"
    by blast
  from tks have "\<forall>(k, v) \<in> set tks. sublist v u" by (rule getTokenValuesFromUrl_sublist)
  with tks call
  show "\<exists>tks st2 ri. getRouteInfo E cfgs app u q l st = Some (Inr (app @ ''||'' @ u), st2) \<and>
        routeInfoCache st2 (app @ ''||'' @ u) = Some ri \<and>
        url ri = u \<and> urlPattern ri = urlPattern r \<and>
        getTokenValuesFromUrl (urlPattern r) u = Some tks \<and> tokens ri = tks \<and>
        (\<forall>(k, v) \<in> set tks. sublist v u)"
    by (simp add: makeRouteInfo_def)
  fix u'
  assume b: "toLowerCase u' = toLowerCase u \<and> routeInfoCache st (app @ ''||'' @ u') = None"
  with found have found': "find (\<lambda>r. test (urlRegex r) (toLowerCase u')) rs = Some r" by simp
  from b have miss': "routeInfoCache st (app @ ''||'' @ u') = None" by simp
  from getRouteInfo_match [OF miss' routes found', of q l]
  show "\<exists>st2' ri'. getRouteInfo E cfgs app u' q l st = Some (Inr (app @ ''||'' @ u'), st2') \<and>
           routeInfoCache st2' (app @ ''||'' @ u') = Some ri' \<and>
           url ri' = u' \<and> urlPattern ri' = urlPattern r"
    by (auto simp: makeRouteInfo_def)
qed

theorem getRouteInfo_original_casing_witness:
  "routeInfoCache initialState ''blog||/Posts/AbC'' = None \<and>
   toLowerCase ''/Posts/AbC'' = ''/posts/abc'' \<and>
   \<not> test (urlRegex postRoute) ''/Posts/AbC'' \<and>
   find (\<lambda>r. test (urlRegex r) (toLowerCase ''/Posts/AbC'')) [postRoute] = Some postRoute \<and>
   (\<exists>st2 ri. getRouteInfo fragmentEngine sampleConfigs ''blog'' ''/Posts/AbC'' (JObj []) ''en''
        initialState = Some (Inr ''blog||/Posts/AbC'', st2) \<and>
      routeInfoCache st2 ''blog||/Posts/AbC'' = Some ri \<and>
      url ri = ''/Posts/AbC'' \<and> urlPattern ri = ''/posts/{id}'' \<and>
      tokens ri = [(''id'', ''AbC'')])"
proof -
  have miss: "routeInfoCache initialState (''blog'' @ ''||'' @ ''/Posts/AbC'') = None"
    by (simp add: initialState_def)
  have low: "toLowerCase ''/Posts/AbC'' = ''/posts/abc''"
    by (simp add: toLowerCase_def toLowerChar_def)
  have rej: "\<not> test (urlRegex postRoute) ''/Posts/AbC''"
    using postsRegex_test(4) by (simp add: postRoute_def makeRoute_def)
  have found: "find (\<lambda>r. test (urlRegex r) (toLowerCase ''/Posts/AbC'')) [postRoute] = Some postRoute"
    unfolding low using postsRegex_test(2) by (simp add: postRoute_def makeRoute_def)
  have pat: "urlPattern postRoute = ''/posts/{id}''"
    by (simp add: postRoute_def makeRoute_def)
  have tk: "getTokenValuesFromUrl ''/posts/{id}'' ''/Posts/AbC'' = Some [(''id'', ''AbC'')]"
    by code_simp
  from getRouteInfo_original_casing
         [of initialState "''blog''" "''/Posts/AbC''" fragmentEngine sampleConfigs "[postRoute]"
            _ postRoute "JObj []" "''en''", THEN mp, THEN conjunct1]
    miss getRoutes_blog found
  obtain tks st2 ri where
    "getRouteInfo fragmentEngine sampleConfigs ''blog'' ''/Posts/AbC'' (JObj []) ''en'' initialState =
       Some (Inr (''blog'' @ ''||'' @ ''/Posts/AbC''), st2)"
    "routeInfoCache st2 (''blog'' @ ''||'' @ ''/Posts/AbC'') = Some ri"
    "url ri = ''/Posts/AbC''" "urlPattern ri = urlPattern postRoute"
    "getTokenValuesFromUrl (urlPattern postRoute) ''/Posts/AbC'' = Some tks" "tokens ri = tks"
    by blast
  with pat tk have
    "getRouteInfo fragmentEngine sampleConfigs ''blog'' ''/Posts/AbC'' (JObj []) ''en'' initialState =
       Some (Inr ''blog||/Posts/AbC'', st2) \<and>
     routeInfoCache st2 ''blog||/Posts/AbC'' = Some ri \<and>
     url ri = ''/Posts/AbC'' \<and> urlPattern ri = ''/posts/{id}'' \<and> tokens ri = [(''id'', ''AbC'')]"
    by simp
  with miss low rej found show ?thesis by auto
qed

text \<open>
  C4. What \<^verbatim>\<open>getRoutes\<close> computes for \<open>strip\<close> when the route declares none:
  \<^verbatim>\<open>route.strip || appConfig.defaultStrip || true\<close> is the application's default
  only when that default is truthy, and \<open>true\<close> otherwise, so a default of
  \<open>false\<close> is never inherited.
\<close>

theorem getRoutes_strip_ignores_false_default:
  "r_strip decl = None \<longrightarrow>
     strip (makeRoute app cfg decl pat rx) = jsOr (defaultStrip cfg) (JBool True) \<and>
     truthy (strip (makeRoute app cfg decl pat rx)) \<and>
     (defaultStrip cfg = JBool False \<longrightarrow> strip (makeRoute app cfg decl pat rx) = JBool True)"
  by (auto simp: makeRoute_def extendProp_def own_def jsOr_def)

theorem getRoutes_strip_ignores_false_default_witness:
  "r_strip postDecl = None \<and> defaultStrip blogConfig = JBool False \<and>
   (\<exists>rs st'. getRoutes fragmentEngine sampleConfigs ''blog'' initialState = (Inr rs, st') \<and>
      rs = [makeRoute ''blog'' blogConfig postDecl ''/posts/{id}'' postsRegex] \<and>
      map strip rs = [JBool True])"
proof -
  have none: "r_strip postDecl = None" by (simp add: postDecl_def)
  have dflt: "defaultStrip blogConfig = JBool False" by (simp add: blogConfig_def)
  from getRoutes_strip_ignores_false_default
         [of postDecl "''blog''" blogConfig "''/posts/{id}''" postsRegex] none dflt
  have "strip (makeRoute ''blog'' blogConfig postDecl ''/posts/{id}'' postsRegex) = JBool True"
    by blast
  with none dflt getRoutes_blog show ?thesis by (simp add: postRoute_def)
qed

section \<open>Properties of the request pipeline\<close>

text \<open>
  C7. \<^verbatim>\<open>getInitialModel\<close>: a page whose \<open>model\<close> is falsy (none declared) gives
  the promise of an empty object; a \<open>model\<close> that is a function is resolved by the
  injector's \<^verbatim>\<open>loadModule\<close>, called with that function and the dependencies
  \<^verbatim>\<open>{appName, tokens, routeInfo, defaults, currentScope: {}}\<close>; any other truthy
  \<open>model\<close> throws the error whose message is the route name, then
  \<^verbatim>\<open> page invalid model() format: \<close>, then the declaration as a string.
\<close>

theorem getInitialModel_cases:
  "(\<not> truthy (model pg) \<longrightarrow> getInitialModel env ri pg = Inr (Fulfilled (JObj []))) \<and>
   (isFunction (model pg) \<longrightarrow>
      getInitialModel env ri pg =
        loadModule env (model pg)
          \<lparr> d_appName = appName ri, d_tokens = tokens ri, d_routeInfo = ri,
            d_defaults = defaults pg, d_currentScope = JObj [] \<rparr>) \<and>
   (truthy (model pg) \<and> \<not> isFunction (model pg) \<longrightarrow>
      getInitialModel env ri pg =
        Inl (Error (name ri @ '' page invalid model() format: '' @ jsToString (model pg))))"
proof -
  have "isFunction v \<Longrightarrow> truthy v" for v by (cases v) simp_all
  then show ?thesis by (auto simp: getInitialModel_def Let_def)
qed

theorem getInitialModel_cases_witness:
  "getInitialModel sampleOpts sampleRouteInfo \<lparr> model = JUndefined, defaults = JUndefined \<rparr> =
     Inr (Fulfilled (JObj [])) \<and>
   isFunction (JFun ''function (tokens) { return tokens; }'') \<and>
   getInitialModel sampleOpts sampleRouteInfo
       \<lparr> model = JFun ''function (tokens) { return tokens; }'', defaults = JUndefined \<rparr> =
     Inr (Fulfilled (JObj [(''app'', JStr ''blog'')])) \<and>
   truthy (JObj []) \<and> \<not> isFunction (JObj []) \<and>
   getInitialModel sampleOpts sampleRouteInfo \<lparr> model = JObj [], defaults = JUndefined \<rparr> =
     Inl (Error ''post page invalid model() format: [object Object]'') \<and>
   getInitialModel sampleOpts sampleRouteInfo \<lparr> model = JNum 7, defaults = JUndefined \<rparr> =
     Inl (Error ''post page invalid model() format: 7'')"
proof -
  have nm: "name sampleRouteInfo = ''post''" "appName sampleRouteInfo = ''blog''"
    by (simp_all add: sampleRouteInfo_def makeRouteInfo_def postRoute_def makeRoute_def postDecl_def)
  note c = getInitialModel_cases [of _ sampleOpts sampleRouteInfo]
  from c [of "\<lparr> model = JUndefined, defaults = JUndefined \<rparr>"]
  have a: "getInitialModel sampleOpts sampleRouteInfo \<lparr> model = JUndefined, defaults = JUndefined \<rparr> =
     Inr (Fulfilled (JObj []))"
    by simp
  from c [of "\<lparr> model = JFun ''function (tokens) { return tokens; }'', defaults = JUndefined \<rparr>"]
  have b: "getInitialModel sampleOpts sampleRouteInfo
       \<lparr> model = JFun ''function (tokens) { return tokens; }'', defaults = JUndefined \<rparr> =
     Inr (Fulfilled (JObj [(''app'', JStr ''blog'')]))"
    by (simp add: sampleOpts_def nm)
  from c [of "\<lparr> model = JObj [], defaults = JUndefined \<rparr>"]
  have d: "getInitialModel sampleOpts sampleRouteInfo \<lparr> model = JObj [], defaults = JUndefined \<rparr> =
     Inl (Error ''post page invalid model() format: [object Object]'')"
    by (simp add: nm)
  from c [of "\<lparr> model = JNum 7, defaults = JUndefined \<rparr>"]
  have e: "getInitialModel sampleOpts sampleRouteInfo \<lparr> model = JNum 7, defaults = JUndefined \<rparr> =
     Inl (Error ''post page invalid model() format: 7'')"
    by (simp add: nm digitsOf.simps)
  from a b d e show ?thesis by simp
qed

text \<open>
  The default cache never serves a render. Every value that the handler stores in it
  is \<^verbatim>\<open>undefined\<close>, so every lookup answers \<^verbatim>\<open>undefined\<close>: without a
  \<^verbatim>\<open>pageCacheService\<close> of the application a request that reaches the lookup is
  rendered afresh each time.
\<close>

lemma set_update_insert: "set (AList.update k v al) \<subseteq> insert (k, v) (set al)"
  by (induction al) auto

lemma lruGet_undefined: "\<forall>kv \<in> set c. snd kv = JUndefined \<Longrightarrow> lruGet c k = JUndefined"
  by (fastforce simp: lruGet_def split: option.splits dest!: map_of_SomeD)

lemma lruSet_undefined:
  "\<forall>kv \<in> set c. snd kv = JUndefined \<Longrightarrow> \<forall>kv \<in> set (lruSet c k JUndefined). snd kv = JUndefined"
  using set_update_insert [of k JUndefined c] by (auto simp: lruSet_def)

lemma processWebRequest_default_cache:
  assumes "pageCacheService cbs = None" and "\<forall>kv \<in> set dflt. snd kv = JUndefined"
  shows "\<exists>res c. processWebRequest env ri cbs dflt = (res, Default c) \<and>
           (\<forall>kv \<in> set c. snd kv = JUndefined)"
    and "getProp (query ri) ''server'' = Inr flag \<Longrightarrow> loadPage env (pagePath ri) = Inr pg \<Longrightarrow>
         getInitialModel env ri pg = Inr (Fulfilled mdl) \<Longrightarrow>
         \<not> truthy (serverPreprocessingOf cbs ri pg mdl) \<Longrightarrow>
         fst (processWebRequest env ri cbs dflt) =
           Inr (Fulfilled (renderPage env ri pg (addToModelOf cbs (jsOr mdl (JObj [])) ri)))"
proof -
  have get: "lruGet dflt k = JUndefined" for k
    using assms(2) by (rule lruGet_undefined)
  have set: "\<forall>kv \<in> set (lruSet dflt k JUndefined). snd kv = JUndefined" for k
    using assms(2) by (rule lruSet_undefined)
  show "\<exists>res c. processWebRequest env ri cbs dflt = (res, Default c) \<and>
           (\<forall>kv \<in> set c. snd kv = JUndefined)"
    using assms set
    by (auto simp: processWebRequest_def pageCacheOf_def Let_def
        split: sum.splits promise.splits)
  show "fst (processWebRequest env ri cbs dflt) =
           Inr (Fulfilled (renderPage env ri pg (addToModelOf cbs (jsOr mdl (JObj [])) ri)))"
    if "getProp (query ri) ''server'' = Inr flag" "loadPage env (pagePath ri) = Inr pg"
      "getInitialModel env ri pg = Inr (Fulfilled mdl)"
      "\<not> truthy (serverPreprocessingOf cbs ri pg mdl)"
    using that assms(1) get by (simp add: processWebRequest_def pageCacheOf_def Let_def)
qed




section \<open>The adapter override\<close>

text \<open>
  C6. The merge of a primary adapter with its override: on a key that both have, the
  override's value is the result's; on a key that only the primary has, the primary's
  value is the result's; the result has the keys of either; swapping the two can give
  a different adapter. \<^verbatim>\<open>getAdapter\<close> returns the primary module as it was loaded
  when the adapter category has no override layer, and the merge when it has one and
  the generic module exists.
\<close>

theorem getAdapter_merge_law:
  "(\<forall>k \<in> dom primary \<inter> dom override. mergeAdapter primary override k = override k) \<and>
   (\<forall>k \<in> dom primary - dom override. mergeAdapter primary override k = primary k) \<and>
   dom (mergeAdapter primary override) = dom primary \<union> dom override \<and>
   (\<exists>a b :: string adapter. mergeAdapter a b \<noteq> mergeAdapter b a) \<and>
   (moduleLoader (primaryPath si) = Some primary \<and> \<not> supportsOverride (adapterName si) \<longrightarrow>
      getAdapter supportsOverride genericPath moduleLoader si = Inr primary) \<and>
   (moduleLoader (primaryPath si) = Some primary \<and> supportsOverride (adapterName si) \<and>
    moduleLoader (genericPath si) = Some override \<longrightarrow>
      getAdapter supportsOverride genericPath moduleLoader si = Inr (mergeAdapter primary override))"
proof -
  have wins: "\<forall>k \<in> dom primary \<inter> dom override. mergeAdapter primary override k = override k"
    by (auto simp: mergeAdapter_def map_add_def)
  have survives: "\<forall>k \<in> dom primary - dom override. mergeAdapter primary override k = primary k"
    by (auto simp: mergeAdapter_def map_add_def split: option.splits)
  have keys: "dom (mergeAdapter primary override) = dom primary \<union> dom override"
    by (auto simp: mergeAdapter_def)
  have "mergeAdapter [''two'' \<mapsto> ''two''] [''two'' \<mapsto> ''override''] ''two'' \<noteq>
        mergeAdapter [''two'' \<mapsto> ''override''] [''two'' \<mapsto> ''two''] ''two''"
    by (simp add: mergeAdapter_def)
  then have "mergeAdapter [''two'' \<mapsto> ''two''] [''two'' \<mapsto> ''override''] \<noteq>
        mergeAdapter [''two'' \<mapsto> ''override''] [''two'' \<mapsto> ''two'']"
    by metis
  then have swap: "\<exists>a b :: string adapter. mergeAdapter a b \<noteq> mergeAdapter b a"
    by blast
  from wins survives keys swap show ?thesis
    by (simp add: getAdapter_def)
qed

theorem getAdapter_merge_law_witness:
  "''two'' \<in> dom solrAdapter \<inter> dom genericAdapter \<and>
   ''one'' \<in> dom solrAdapter - dom genericAdapter \<and>
   mergeAdapter solrAdapter genericAdapter ''two'' = Some ''override'' \<and>
   mergeAdapter solrAdapter genericAdapter ''one'' = Some ''one'' \<and>
   mergeAdapter solrAdapter genericAdapter ''three'' = Some ''three'' \<and>
   getAdapter (\<lambda>category. category = ''repo'') fixtureGenericPath fixtureLoader
       \<lparr> adapterName = ''repo'', adapterImpl = ''solr'', resourceName = ''blah'' \<rparr> =
     Inr (mergeAdapter solrAdapter genericAdapter) \<and>
   getAdapter (\<lambda>category. category = ''repo'') fixtureGenericPath fixtureLoader
       \<lparr> adapterName = ''backend'', adapterImpl = ''solr'', resourceName = ''post'' \<rparr> =
     Inr solrAdapter"
proof -
  let ?repo = "\<lparr> adapterName = ''repo'', adapterImpl = ''solr'', resourceName = ''blah'' \<rparr>"
  let ?backend = "\<lparr> adapterName = ''backend'', adapterImpl = ''solr'', resourceName = ''post'' \<rparr>"
  let ?sup = "\<lambda>category. category = ''repo''"
  have both: "''two'' \<in> dom solrAdapter \<inter> dom genericAdapter"
    and only: "''one'' \<in> dom solrAdapter - dom genericAdapter"
    by (simp_all add: solrAdapter_def genericAdapter_def)
  have g: "genericAdapter ''two'' = Some ''override''" "solrAdapter ''one'' = Some ''one''"
      "genericAdapter ''three'' = Some ''three''" "''three'' \<in> dom genericAdapter"
    by (simp_all add: solrAdapter_def genericAdapter_def)
  note law = getAdapter_merge_law [of solrAdapter genericAdapter fixtureLoader _ ?sup fixtureGenericPath]
  from law [of ?repo] both g have two: "mergeAdapter solrAdapter genericAdapter ''two'' = Some ''override''"
    by metis
  from law [of ?repo] only g have one: "mergeAdapter solrAdapter genericAdapter ''one'' = Some ''one''"
    by metis
  have three: "mergeAdapter solrAdapter genericAdapter ''three'' = Some ''three''"
    by (simp add: mergeAdapter_def g)
  have l1: "fixtureLoader (primaryPath ?repo) = Some solrAdapter"
      "fixtureLoader (fixtureGenericPath ?repo) = Some genericAdapter"
      "fixtureLoader (primaryPath ?backend) = Some solrAdapter"
    by (simp_all add: fixtureLoader_def primaryPath_def fixtureGenericPath_def Let_def)
  from law [of ?repo] l1 have merged:
    "getAdapter ?sup fixtureGenericPath fixtureLoader ?repo = Inr (mergeAdapter solrAdapter genericAdapter)"
    by simp
  from law [of ?backend] l1 have plain:
    "getAdapter ?sup fixtureGenericPath fixtureLoader ?backend = Inr solrAdapter"
    by simp
  from both only two one three merged plain show ?thesis by blast
qed

end
